theory Spec2Isabelle
  imports Main "HOL-Library.Word" "HOL-Library.Multiset"
begin

section \<open>The weighted semaphore of semaphore.go\<close>

subsection \<open>Data\<close>

text \<open>
  Go's \<open>int64\<close> is a 64-bit word: \<open>+\<close> and \<open>-\<close> wrap around, comparisons are the
  signed ones (\<open>\<le>s\<close>, \<open><s\<close>, that is, comparisons of \<open>sint\<close>).
\<close>

type_synonym int64 = "64 word"

text \<open>
  A channel made by \<open>make(chan struct{})\<close> and a \<open>*list.Element\<close> made by \<open>PushBack\<close>
  are heap objects; each is named by the number it was allocated under.
\<close>

type_synonym chan = nat
type_synonym element = nat

record waiter =
  w_n :: int64
  w_ready :: chan

text \<open>
  A \<open>container/list\<close> list of waiters, front first. Every entry is an element (its
  identity) together with its \<open>Value\<close>. An element belongs to the list that holds it:
  the field \<open>e.list\<close> of the Go library is \<open>l\<close> exactly while \<open>e\<close> is an entry of
  \<open>l\<close>, and \<open>nil\<close> once \<open>e\<close> has been removed.
\<close>

type_synonym wlist = "(element \<times> waiter) list"

definition list_Len :: "wlist \<Rightarrow> nat" where
  "list_Len l = length l"

definition list_Front :: "wlist \<Rightarrow> (element \<times> waiter) option" where
  "list_Front l = (case l of [] \<Rightarrow> None | x # _ \<Rightarrow> Some x)"

text \<open>\<open>l.PushBack(v)\<close> links a new element \<open>e\<close> holding \<open>v\<close> behind the last one.\<close>

definition list_PushBack :: "wlist \<Rightarrow> element \<Rightarrow> waiter \<Rightarrow> wlist" where
  "list_PushBack l e v = l @ [(e, v)]"

text \<open>
  \<open>l.Remove(e)\<close> unlinks \<open>e\<close> if \<open>e.list == l\<close> and does nothing otherwise, in
  particular when \<open>e\<close> was removed before or belongs to another list.
\<close>

definition list_Remove :: "wlist \<Rightarrow> element \<Rightarrow> wlist" where
  "list_Remove l e = (if e \<in> fst ` set l then filter (\<lambda>x. fst x \<noteq> e) l else l)"

text \<open>
  The struct \<open>Weighted\<close>: \<open>size\<close>, \<open>cur\<close> and the two lists. The mutex \<open>mu\<close> has no
  field here: every function below is one critical section, run from \<open>Lock\<close> to
  \<open>Unlock\<close> without interruption. The last two fields are the part of the heap the code
  touches: the channels closed so far, and the allocation counter.
\<close>

record Weighted =
  s_size :: int64
  s_cur :: int64
  s_waiters :: wlist
  s_impossibleWaiters :: wlist
  closed :: "chan list"
  fresh :: nat

datatype panic = BadRelease | BadResize | CloseOfClosedChannel

datatype outcome = Returned | Panicked panic

subsection \<open>NewWeighted, TryAcquire\<close>

definition NewWeighted :: "int64 \<Rightarrow> Weighted" where
  "NewWeighted n =
     \<lparr>s_size = n, s_cur = 0, s_waiters = [], s_impossibleWaiters = [],
      closed = [], fresh = 0\<rparr>"

definition TryAcquire :: "int64 \<Rightarrow> Weighted \<Rightarrow> bool \<times> Weighted" where
  "TryAcquire n s =
     (let success = (n \<le>s s_size s - s_cur s \<and> list_Len (s_waiters s) = 0)
      in if success then (success, s\<lparr>s_cur := s_cur s + n\<rparr>) else (success, s))"

subsection \<open>Acquire\<close>

text \<open>
  \<open>Acquire\<close> blocks, so it is not one function but three critical sections.
  \<open>Acquire_lock\<close> is the first (from \<open>Lock\<close> to the \<open>Unlock\<close> before \<open>select\<close>): it
  either takes the fast path or enqueues a waiter, and then the call is suspended with
  its local variables \<open>waiterList\<close>, \<open>elem\<close> and \<open>ready\<close>.
\<close>

datatype queue = Waiters | ImpossibleWaiters

record suspended =
  waiterList :: queue
  elem :: element
  ready :: chan

datatype entered = Acquired | Blocked suspended

definition push_waiter :: "queue \<Rightarrow> element \<Rightarrow> waiter \<Rightarrow> Weighted \<Rightarrow> Weighted" where
  "push_waiter q e w s =
     (case q of
        Waiters \<Rightarrow> s\<lparr>s_waiters := list_PushBack (s_waiters s) e w\<rparr>
      | ImpossibleWaiters \<Rightarrow>
          s\<lparr>s_impossibleWaiters := list_PushBack (s_impossibleWaiters s) e w\<rparr>)"

definition remove_waiter :: "queue \<Rightarrow> element \<Rightarrow> Weighted \<Rightarrow> Weighted" where
  "remove_waiter q e s =
     (case q of
        Waiters \<Rightarrow> s\<lparr>s_waiters := list_Remove (s_waiters s) e\<rparr>
      | ImpossibleWaiters \<Rightarrow>
          s\<lparr>s_impossibleWaiters := list_Remove (s_impossibleWaiters s) e\<rparr>)"

definition Acquire_lock :: "int64 \<Rightarrow> Weighted \<Rightarrow> entered \<times> Weighted" where
  "Acquire_lock n s =
     (if n \<le>s s_size s - s_cur s \<and> list_Len (s_waiters s) = 0
      then (Acquired, s\<lparr>s_cur := s_cur s + n\<rparr>)
      else
        let wl = (if s_size s <s n then ImpossibleWaiters else Waiters);
            r = fresh s;
            w = \<lparr>w_n = n, w_ready = r\<rparr>;
            e = Suc (fresh s);
            s1 = push_waiter wl e w (s\<lparr>fresh := Suc (Suc (fresh s))\<rparr>)
        in (Blocked \<lparr>waiterList = wl, elem = e, ready = r\<rparr>, s1))"

text \<open>
  The branch \<open>case <-ctx.Done()\<close> of the \<open>select\<close>: the second critical section.
  \<open>None\<close> is \<open>err = nil\<close>, \<open>Some ()\<close> is the error \<open>ctx.Err()\<close>.
\<close>

definition Acquire_ctx_done :: "suspended \<Rightarrow> Weighted \<Rightarrow> unit option \<times> Weighted" where
  "Acquire_ctx_done p s =
     (if ready p \<in> set (closed s) then (None, s)
      else (Some (), remove_waiter (waiterList p) (elem p) s))"

text \<open>
  The branch \<open>case <-ready\<close>: it can be taken once \<open>ready\<close> is closed, returns \<open>nil\<close>
  and touches nothing.
\<close>

definition Acquire_ready :: "suspended \<Rightarrow> Weighted \<Rightarrow> bool" where
  "Acquire_ready p s = (ready p \<in> set (closed s))"

subsection \<open>Release\<close>

text \<open>
  The \<open>for\<close> loop of \<open>Release\<close> (and, word for word, the last loop of \<open>Resize\<close>).
  \<open>close\<close> of a closed channel is a run-time panic in Go.
\<close>

function wake_cascade :: "Weighted \<Rightarrow> outcome \<times> Weighted" where
  "wake_cascade s =
     (case list_Front (s_waiters s) of
        None \<Rightarrow> (Returned, s)
      | Some (next, w) \<Rightarrow>
          if s_size s - s_cur s <s w_n w then (Returned, s)
          else
            let s1 = s\<lparr>s_cur := s_cur s + w_n w\<rparr>;
                s2 = s1\<lparr>s_waiters := list_Remove (s_waiters s1) next\<rparr>
            in if w_ready w \<in> set (closed s2) then (Panicked CloseOfClosedChannel, s2)
               else wake_cascade (s2\<lparr>closed := closed s2 @ [w_ready w]\<rparr>))"
  by pat_completeness auto
termination
proof (relation "measure (\<lambda>s. length (s_waiters s))")
  show "wf (measure (\<lambda>s. length (s_waiters s)))" by simp
next
  fix s :: Weighted and x2 x y s1 s2
  assume f: "list_Front (s_waiters s) = Some x2" and x: "(x, y) = x2"
    and s1: "s1 = s\<lparr>s_cur := s_cur s + w_n y\<rparr>"
    and s2: "s2 = s1\<lparr>s_waiters := list_Remove (s_waiters s1) x\<rparr>"
  from f x obtain rest where l: "s_waiters s = (x, y) # rest"
    by (auto simp: list_Front_def split: list.splits)
  have "length (filter (\<lambda>z. fst z \<noteq> x) rest) \<le> length rest" by simp
  with l s1 s2 show "(s2\<lparr>closed := closed s2 @ [w_ready y]\<rparr>, s) \<in> measure (\<lambda>s. length (s_waiters s))"
    by (simp add: list_Remove_def less_Suc_eq_le)
qed

definition Release :: "int64 \<Rightarrow> Weighted \<Rightarrow> outcome \<times> Weighted" where
  "Release n s =
     (let s1 = s\<lparr>s_cur := s_cur s - n\<rparr>
      in if s_cur s1 <s 0 then (Panicked BadRelease, s1) else wake_cascade s1)"

subsection \<open>Resize\<close>

text \<open>
  The first loop of \<open>Resize\<close> walks \<open>impossibleWaiters\<close> from \<open>Front()\<close> with the
  cursor \<open>element\<close>. The cursor is advanced with \<open>element.Next()\<close> before the current
  element is removed, and removing an element leaves the links of the later ones alone,
  so the walk visits the entries the list had at the start, in order: the first
  argument is what is left of that walk (\<open>element\<close>, \<open>element.Next()\<close>, ...).
\<close>

fun move_possible :: "wlist \<Rightarrow> Weighted \<Rightarrow> Weighted" where
  "move_possible [] s = s"
| "move_possible ((element, w) # next) s =
     (if s_size s <s w_n w then move_possible next s
      else
        let s1 = s\<lparr>s_waiters := list_PushBack (s_waiters s) (fresh s) w,
                   fresh := Suc (fresh s)\<rparr>;
            toRemove = element;
            s2 = s1\<lparr>s_impossibleWaiters := list_Remove (s_impossibleWaiters s1) toRemove\<rparr>
        in move_possible next s2)"

text \<open>The second loop, over \<open>waiters\<close>, in the same way.\<close>

fun move_impossible :: "wlist \<Rightarrow> Weighted \<Rightarrow> Weighted" where
  "move_impossible [] s = s"
| "move_impossible ((element, w) # next) s =
     (if w_n w \<le>s s_size s then move_impossible next s
      else
        let s1 = s\<lparr>s_impossibleWaiters := list_PushBack (s_impossibleWaiters s) (fresh s) w,
                   fresh := Suc (fresh s)\<rparr>;
            toRemove = element;
            s2 = s1\<lparr>s_waiters := list_Remove (s_waiters s1) toRemove\<rparr>
        in move_impossible next s2)"

definition Resize :: "int64 \<Rightarrow> Weighted \<Rightarrow> outcome \<times> Weighted" where
  "Resize n s =
     (let s1 = s\<lparr>s_size := n\<rparr>
      in if s_size s1 <s 0 then (Panicked BadResize, s1)
         else
           let s2 = move_possible (s_impossibleWaiters s1) s1;
               s3 = move_impossible (s_waiters s2) s2
           in wake_cascade s3)"

text \<open>The state of \<open>Resize(n)\<close> between its second loop and its last.\<close>

definition reclassified :: "int64 \<Rightarrow> Weighted \<Rightarrow> Weighted" where
  "reclassified n s =
     (let s1 = s\<lparr>s_size := n\<rparr>;
          s2 = move_possible (s_impossibleWaiters s1) s1
      in move_impossible (s_waiters s2) s2)"

subsection \<open>Programs of calls\<close>

text \<open>
  The semaphore together with the \<open>Acquire\<close> calls that are suspended in their
  \<open>select\<close>. An event is one critical section run by some goroutine; since all of them
  take the same mutex, every concurrent execution is a sequence of events.
  \<open>CtxDone i\<close> and \<open>ReadyRecv i\<close> are the two branches of the \<open>select\<close> of the
  \<open>i\<close>-th suspended call. A panic halts the program: no state follows it.
\<close>

type_synonym system = "Weighted \<times> suspended list"

datatype event =
    AcquireCall int64
  | CtxDone nat
  | ReadyRecv nat
  | TryAcquireCall int64
  | ReleaseCall int64
  | ResizeCall int64

definition drop_nth :: "nat \<Rightarrow> 'a list \<Rightarrow> 'a list" where
  "drop_nth i xs = take i xs @ drop (Suc i) xs"

fun exec :: "event \<Rightarrow> system \<Rightarrow> system option" where
  "exec (AcquireCall n) (s, ps) =
     (case Acquire_lock n s of
        (Acquired, s') \<Rightarrow> Some (s', ps)
      | (Blocked p, s') \<Rightarrow> Some (s', ps @ [p]))"
| "exec (CtxDone i) (s, ps) =
     (if i < length ps then Some (snd (Acquire_ctx_done (ps ! i) s), drop_nth i ps)
      else None)"
| "exec (ReadyRecv i) (s, ps) =
     (if i < length ps \<and> Acquire_ready (ps ! i) s then Some (s, drop_nth i ps) else None)"
| "exec (TryAcquireCall n) (s, ps) = Some (snd (TryAcquire n s), ps)"
| "exec (ReleaseCall n) (s, ps) =
     (case Release n s of (Returned, s') \<Rightarrow> Some (s', ps) | (Panicked _, _) \<Rightarrow> None)"
| "exec (ResizeCall n) (s, ps) =
     (case Resize n s of (Returned, s') \<Rightarrow> Some (s', ps) | (Panicked _, _) \<Rightarrow> None)"

fun run :: "event list \<Rightarrow> system \<Rightarrow> system option" where
  "run [] \<sigma> = Some \<sigma>"
| "run (ev # evs) \<sigma> = (case exec ev \<sigma> of None \<Rightarrow> None | Some \<sigma>' \<Rightarrow> run evs \<sigma>')"

subsection \<open>State predicates\<close>

text \<open>All waiters of both lists.\<close>

definition queued :: "Weighted \<Rightarrow> wlist" where
  "queued s = s_waiters s @ s_impossibleWaiters s"

text \<open>
  What being heap objects means for the entries: an element is in one place only, every
  waiter has a channel of its own, which is open, and nothing is beyond the allocation
  counter.
\<close>

definition heap_ok :: "Weighted \<Rightarrow> bool" where
  "heap_ok s \<longleftrightarrow>
     distinct (map fst (queued s)) \<and>
     distinct (map (\<lambda>x. w_ready (snd x)) (queued s)) \<and>
     (\<forall>x \<in> set (queued s).
        fst x < fresh s \<and> w_ready (snd x) < fresh s \<and> w_ready (snd x) \<notin> set (closed s)) \<and>
     (\<forall>c \<in> set (closed s). c < fresh s)"

text \<open>Every entry is in the list its weight belongs to under the present \<open>size\<close>.\<close>

definition classified :: "Weighted \<Rightarrow> bool" where
  "classified s \<longleftrightarrow>
     (\<forall>x \<in> set (s_waiters s). w_n (snd x) \<le>s s_size s) \<and>
     (\<forall>x \<in> set (s_impossibleWaiters s). s_size s <s w_n (snd x))"

text \<open>No queued weight is negative.\<close>

definition weights_nonneg :: "Weighted \<Rightarrow> bool" where
  "weights_nonneg s \<longleftrightarrow> (\<forall>x \<in> set (queued s). 0 \<le>s w_n (snd x))"

text \<open>Capacity, use and all queued weights are not negative.\<close>

definition nonneg_state :: "Weighted \<Rightarrow> bool" where
  "nonneg_state s \<longleftrightarrow> 0 \<le>s s_size s \<and> 0 \<le>s s_cur s \<and> weights_nonneg s"

text \<open>A call whose weight is not negative.\<close>

fun nonneg_call :: "event \<Rightarrow> bool" where
  "nonneg_call (AcquireCall n) = (0 \<le>s n)"
| "nonneg_call (TryAcquireCall n) = (0 \<le>s n)"
| "nonneg_call (ReleaseCall n) = (0 \<le>s n)"
| "nonneg_call _ = True"

text \<open>No \<open>Resize(n)\<close> of the program is called with \<open>n\<close> below \<open>cur\<close>.\<close>

fun keeps_room :: "event \<Rightarrow> Weighted \<Rightarrow> bool" where
  "keeps_room (ResizeCall n) s = (s_cur s \<le>s n)"
| "keeps_room _ s = True"

fun never_shrinks_below_cur :: "event list \<Rightarrow> system \<Rightarrow> bool" where
  "never_shrinks_below_cur [] \<sigma> = True"
| "never_shrinks_below_cur (ev # evs) \<sigma> =
     (keeps_room ev (fst \<sigma>) \<and>
      (case exec ev \<sigma> of None \<Rightarrow> True | Some \<sigma>' \<Rightarrow> never_shrinks_below_cur evs \<sigma>'))"

text \<open>The weights and the channels of a list of entries.\<close>

abbreviation weights :: "wlist \<Rightarrow> int64 list" where
  "weights l \<equiv> map (\<lambda>x. w_n (snd x)) l"

abbreviation readys :: "wlist \<Rightarrow> chan list" where
  "readys l \<equiv> map (\<lambda>x. w_ready (snd x)) l"

text \<open>An entry whose weight is within \<open>n\<close>.\<close>

definition fits :: "int64 \<Rightarrow> element \<times> waiter \<Rightarrow> bool" where
  "fits n x \<longleftrightarrow> w_n (snd x) \<le>s n"

text \<open>The values of a list of entries, in new elements allocated from \<open>f\<close> on.\<close>

definition renumber :: "nat \<Rightarrow> wlist \<Rightarrow> wlist" where
  "renumber f l = zip [f ..< f + length l] (map snd l)"

subsection \<open>Scenarios\<close>

text \<open>
  Capacity 2, all of it in use; a waiter for 2 is queued in front of a waiter for 1.
\<close>

definition head_of_line :: Weighted where
  "head_of_line =
     \<lparr>s_size = 2, s_cur = 2,
      s_waiters = [(1, \<lparr>w_n = 2, w_ready = 0\<rparr>), (3, \<lparr>w_n = 1, w_ready = 2\<rparr>)],
      s_impossibleWaiters = [], closed = [], fresh = 4\<rparr>"

text \<open>
  A semaphore of capacity 1 on which an \<open>Acquire\<close> of weight 5 is suspended, set aside in
  \<open>impossibleWaiters\<close>.
\<close>

definition set_aside :: Weighted where
  "set_aside =
     \<lparr>s_size = 1, s_cur = 0, s_waiters = [],
      s_impossibleWaiters = [(1, \<lparr>w_n = 5, w_ready = 0\<rparr>)], closed = [], fresh = 2\<rparr>"

text \<open>
  The \<open>Acquire\<close> of weight 5 that \<open>set_aside\<close> holds, as it is suspended in its
  \<open>select\<close>; and the semaphore after one unit was taken and \<open>Resize(5)\<close> has moved
  that waiter into \<open>waiters\<close>, under a new element.
\<close>

definition stale :: suspended where
  "stale = \<lparr>waiterList = ImpossibleWaiters, elem = 1, ready = 0\<rparr>"

definition moved :: Weighted where
  "moved =
     \<lparr>s_size = 5, s_cur = 1, s_waiters = [(2, \<lparr>w_n = 5, w_ready = 0\<rparr>)],
      s_impossibleWaiters = [], closed = [], fresh = 3\<rparr>"

text \<open>
  Capacity 2, all of it in use; a waiter for 1 and, behind it, a waiter for -3.
\<close>

definition negative_waiter :: Weighted where
  "negative_waiter =
     \<lparr>s_size = 2, s_cur = 2,
      s_waiters = [(1, \<lparr>w_n = 1, w_ready = 0\<rparr>), (3, \<lparr>w_n = - 3, w_ready = 2\<rparr>)],
      s_impossibleWaiters = [], closed = [], fresh = 4\<rparr>"

section \<open>Properties\<close>

subsection \<open>Signed 64-bit arithmetic\<close>

lemma sint64_bounds:
  "- 9223372036854775808 \<le> sint a \<and> sint a < 9223372036854775808" for a :: int64
  using sint_ge [of a] sint_lt [of a] by simp

lemma sint_sub_exact:
  "- 9223372036854775808 \<le> sint a - sint b \<Longrightarrow> sint a - sint b < 9223372036854775808 \<Longrightarrow>
   sint (a - b) = sint a - sint b" for a b :: int64
  by (simp add: sint_word_ariths signed_take_bit_int_eq_self)

lemma sint_add_exact:
  "- 9223372036854775808 \<le> sint a + sint b \<Longrightarrow> sint a + sint b < 9223372036854775808 \<Longrightarrow>
   sint (a + b) = sint a + sint b" for a b :: int64
  by (simp add: sint_word_ariths signed_take_bit_int_eq_self)

lemma sint_sub_nonneg:
  "0 \<le>s a \<Longrightarrow> 0 \<le>s b \<Longrightarrow> sint (a - b) = sint a - sint b" for a b :: int64
  using sint64_bounds [of a] sint64_bounds [of b]
  by (intro sint_sub_exact) (simp_all add: word_sle_eq)

subsection \<open>The list operations\<close>

lemma list_Remove_filter: "list_Remove l e = filter (\<lambda>x. fst x \<noteq> e) l"
proof (cases "e \<in> fst ` set l")
  case True
  then show ?thesis by (simp add: list_Remove_def)
next
  case False
  then have "filter (\<lambda>x. fst x \<noteq> e) l = l"
    by (intro filter_True) auto
  with False show ?thesis by (simp add: list_Remove_def)
qed

lemma list_Remove_head:
  "e \<notin> fst ` set rest \<Longrightarrow> list_Remove ((e, w) # rest) e = rest"
  by (simp add: list_Remove_filter filter_id_conv) force

subsection \<open>Unfolding the wake cascade\<close>

declare wake_cascade.simps [simp del]

lemma wake_cascade_Nil: "s_waiters s = [] \<Longrightarrow> wake_cascade s = (Returned, s)"
  by (subst wake_cascade.simps) (simp add: list_Front_def)

lemma wake_cascade_Cons:
  "s_waiters s = (e, w) # rest \<Longrightarrow>
   wake_cascade s =
     (if s_size s - s_cur s <s w_n w then (Returned, s)
      else if w_ready w \<in> set (closed s)
        then (Panicked CloseOfClosedChannel,
              s\<lparr>s_cur := s_cur s + w_n w, s_waiters := list_Remove ((e, w) # rest) e\<rparr>)
        else wake_cascade
              (s\<lparr>s_cur := s_cur s + w_n w, s_waiters := list_Remove ((e, w) # rest) e,
                 closed := closed s @ [w_ready w]\<rparr>))"
  by (subst wake_cascade.simps) (simp add: list_Front_def Let_def)

lemma wake_cascade_not_BadRelease: "fst (wake_cascade s) \<noteq> Panicked BadRelease"
proof (induction s rule: wake_cascade.induct)
  case (1 s)
  show ?case
  proof (cases "s_waiters s")
    case Nil
    then show ?thesis by (simp add: wake_cascade_Nil)
  next
    case (Cons x rest)
    obtain e w where x: "x = (e, w)" by (cases x)
    with Cons have l: "s_waiters s = (e, w) # rest" by simp
    have f: "list_Front (s_waiters s) = Some (e, w)" by (simp add: l list_Front_def)
    show ?thesis
      using "1.IH" [OF f refl _ refl refl] l
      by (simp add: wake_cascade_Cons [OF l])
  qed
qed


subsection \<open>Admission\<close>

text \<open>
  Claim C3. The fast path of \<open>Acquire\<close> and \<open>TryAcquire\<close> admit a request under the
  same test: they succeed exactly when the wait queue is empty and
  \<open>size - cur \<ge> n\<close>, and then \<open>cur\<close> grows by \<open>n\<close> and nothing else changes. When the
  test fails, \<open>TryAcquire\<close> returns false and the state it returns is the state it was
  given, so no waiter is enqueued. The test is the one the code computes, in \<open>int64\<close>;
  for a semaphore with \<open>0 \<le> size\<close> and \<open>0 \<le> cur\<close> it is the comparison of the
  integers.
\<close>

theorem C3_admission:
  "(fst (TryAcquire n s) \<longleftrightarrow> n \<le>s s_size s - s_cur s \<and> s_waiters s = []) \<and>
   (fst (Acquire_lock n s) = Acquired \<longleftrightarrow> n \<le>s s_size s - s_cur s \<and> s_waiters s = []) \<and>
   snd (TryAcquire n s) =
     (if n \<le>s s_size s - s_cur s \<and> s_waiters s = [] then s\<lparr>s_cur := s_cur s + n\<rparr> else s) \<and>
   (fst (Acquire_lock n s) = Acquired \<longrightarrow> snd (Acquire_lock n s) = s\<lparr>s_cur := s_cur s + n\<rparr>) \<and>
   (0 \<le>s s_size s \<and> 0 \<le>s s_cur s \<longrightarrow>
      (n \<le>s s_size s - s_cur s \<longleftrightarrow> sint n \<le> sint (s_size s) - sint (s_cur s)))"
proof -
  have "0 \<le>s s_size s \<and> 0 \<le>s s_cur s \<longrightarrow>
      (n \<le>s s_size s - s_cur s \<longleftrightarrow> sint n \<le> sint (s_size s) - sint (s_cur s))"
    using sint_sub_nonneg [of "s_size s" "s_cur s"] by (simp add: word_sle_eq)
  then show ?thesis
    by (simp add: TryAcquire_def Acquire_lock_def list_Len_def Let_def)
qed

theorem C3_admission_witness:
  "fst (TryAcquire 2 (NewWeighted 2)) \<and>
   snd (TryAcquire 2 (NewWeighted 2)) = (NewWeighted 2)\<lparr>s_cur := 2\<rparr> \<and>
   \<not> fst (TryAcquire 1 ((NewWeighted 2)\<lparr>s_cur := 2\<rparr>)) \<and>
   snd (TryAcquire 1 ((NewWeighted 2)\<lparr>s_cur := 2\<rparr>)) = (NewWeighted 2)\<lparr>s_cur := 2\<rparr> \<and>
   fst (Acquire_lock 2 (NewWeighted 2)) = Acquired \<and>
   fst (Acquire_lock 1 ((NewWeighted 2)\<lparr>s_cur := 2\<rparr>)) \<noteq> Acquired"
  using C3_admission [of 2 "NewWeighted 2"] C3_admission [of 1 "(NewWeighted 2)\<lparr>s_cur := 2\<rparr>"]
  by (simp add: NewWeighted_def word_sle_eq)

subsection \<open>Release\<close>

text \<open>
  Claim C5. \<open>Release(n)\<close> decreases \<open>cur\<close> by \<open>n\<close>. If the new \<open>cur\<close> is below zero
  the call panics with the bad-release message, and no waiter has been looked at: the
  state differs from the old one in \<open>cur\<close> only. Otherwise the call is the wake cascade
  run on the decreased state. For \<open>0 \<le> cur\<close> and \<open>0 \<le> n\<close> the subtraction does not
  wrap, so the test is whether the integer \<open>cur - n\<close> is negative.
\<close>

theorem C5_Release:
  "Release n s =
     (if s_cur s - n <s 0 then (Panicked BadRelease, s\<lparr>s_cur := s_cur s - n\<rparr>)
      else wake_cascade (s\<lparr>s_cur := s_cur s - n\<rparr>)) \<and>
   (0 \<le>s s_cur s \<and> 0 \<le>s n \<longrightarrow>
      sint (s_cur s - n) = sint (s_cur s) - sint n \<and>
      (s_cur s - n <s 0 \<longleftrightarrow> sint (s_cur s) - sint n < 0))"
  by (simp add: Release_def Let_def) (simp add: word_sless_alt sint_sub_nonneg)

theorem C5_Release_witness:
  "Release 3 ((NewWeighted 2)\<lparr>s_cur := 2\<rparr>) = (Panicked BadRelease, (NewWeighted 2)\<lparr>s_cur := - 1\<rparr>) \<and>
   Release 1 ((NewWeighted 2)\<lparr>s_cur := 2\<rparr>) = (Returned, (NewWeighted 2)\<lparr>s_cur := 1\<rparr>) \<and>
   sint (2 - 3 :: int64) = sint (2 :: int64) - sint (3 :: int64)"
  using C5_Release [of 3 "(NewWeighted 2)\<lparr>s_cur := 2\<rparr>"]
        C5_Release [of 1 "(NewWeighted 2)\<lparr>s_cur := 2\<rparr>"]
  by (simp add: NewWeighted_def wake_cascade_Nil word_sless_alt)

subsection \<open>NewWeighted\<close>

text \<open>
  Claim C6 says that creating a semaphore with a negative capacity fails fatally.
  \<open>NewWeighted\<close> has no such check: for \<open>-1\<close> it returns a semaphore of size \<open>-1\<close>,
  whereas \<open>Resize\<close> refuses the same value.
\<close>

theorem C6_NewWeighted_negative:
  "NewWeighted (- 1) =
     \<lparr>s_size = - 1, s_cur = 0, s_waiters = [], s_impossibleWaiters = [], closed = [], fresh = 0\<rparr> \<and>
   s_size (NewWeighted (- 1)) <s 0 \<and>
   fst (Resize (- 1) (NewWeighted 0)) = Panicked BadResize"
  by (simp add: NewWeighted_def Resize_def)

subsection \<open>The state a panic leaves behind\<close>

text \<open>
  Claim C9. The two panics come after the write: when \<open>Release(n)\<close> panics because
  \<open>cur - n\<close> is negative, the state left behind has \<open>cur\<close> already decreased by \<open>n\<close>
  (and so negative); when \<open>Resize(n)\<close> panics because \<open>n\<close> is negative, \<open>size\<close> is
  already \<open>n\<close>. From a state with \<open>0 \<le> cur\<close> (respectively \<open>0 \<le> size\<close>) the state left
  behind is therefore not the state before the call.
\<close>

theorem C9_halts_after_write:
  "(s_cur s - n <s 0 \<longrightarrow> Release n s = (Panicked BadRelease, s\<lparr>s_cur := s_cur s - n\<rparr>)) \<and>
   (n <s 0 \<longrightarrow> Resize n s = (Panicked BadResize, s\<lparr>s_size := n\<rparr>)) \<and>
   (fst (Release n s) = Panicked BadRelease \<longrightarrow>
      snd (Release n s) = s\<lparr>s_cur := s_cur s - n\<rparr> \<and> s_cur (snd (Release n s)) <s 0) \<and>
   (0 \<le>s s_cur s \<and> s_cur s - n <s 0 \<longrightarrow> snd (Release n s) \<noteq> s) \<and>
   (0 \<le>s s_size s \<and> n <s 0 \<longrightarrow> snd (Resize n s) \<noteq> s)"
proof -
  have a: "s_cur s - n <s 0 \<longrightarrow> Release n s = (Panicked BadRelease, s\<lparr>s_cur := s_cur s - n\<rparr>)"
    by (simp add: Release_def Let_def)
  have b: "n <s 0 \<longrightarrow> Resize n s = (Panicked BadResize, s\<lparr>s_size := n\<rparr>)"
    by (simp add: Resize_def Let_def)
  have c: "fst (Release n s) = Panicked BadRelease \<longrightarrow>
      snd (Release n s) = s\<lparr>s_cur := s_cur s - n\<rparr> \<and> s_cur (snd (Release n s)) <s 0"
    using wake_cascade_not_BadRelease [of "s\<lparr>s_cur := s_cur s - n\<rparr>"]
    by (simp add: Release_def Let_def split: if_splits)
  have d: "0 \<le>s s_cur s \<and> s_cur s - n <s 0 \<longrightarrow> snd (Release n s) \<noteq> s"
  proof (intro impI notI, elim conjE)
    assume h: "0 \<le>s s_cur s" "s_cur s - n <s 0" "snd (Release n s) = s"
    from h(2,3) a have "s\<lparr>s_cur := s_cur s - n\<rparr> = s" by simp
    then have "s_cur (s\<lparr>s_cur := s_cur s - n\<rparr>) = s_cur s" by simp
    then have "s_cur s - n = s_cur s" by simp
    with h(1,2) show False by (simp add: word_sle_eq word_sless_alt)
  qed
  have e: "0 \<le>s s_size s \<and> n <s 0 \<longrightarrow> snd (Resize n s) \<noteq> s"
  proof (intro impI notI, elim conjE)
    assume h: "0 \<le>s s_size s" "n <s 0" "snd (Resize n s) = s"
    from h(2,3) b have "s\<lparr>s_size := n\<rparr> = s" by simp
    then have "s_size (s\<lparr>s_size := n\<rparr>) = s_size s" by simp
    then have "n = s_size s" by simp
    with h(1,2) show False by (simp add: word_sle_eq word_sless_alt)
  qed
  from a b c d e show ?thesis by blast
qed

theorem C9_halts_after_write_witness:
  "Release 3 ((NewWeighted 2)\<lparr>s_cur := 2\<rparr>) = (Panicked BadRelease, (NewWeighted 2)\<lparr>s_cur := - 1\<rparr>) \<and>
   Resize (- 1) (NewWeighted 2) = (Panicked BadResize, NewWeighted (- 1)) \<and>
   snd (Release 3 ((NewWeighted 2)\<lparr>s_cur := 2\<rparr>)) \<noteq> (NewWeighted 2)\<lparr>s_cur := 2\<rparr> \<and>
   snd (Resize (- 1) (NewWeighted 2)) \<noteq> NewWeighted 2"
  using C9_halts_after_write [of "(NewWeighted 2)\<lparr>s_cur := 2\<rparr>" 3]
        C9_halts_after_write [of "NewWeighted 2" "- 1"]
  by (simp add: NewWeighted_def)

subsection \<open>Weights that are not positive\<close>

text \<open>
  Claim C10, amended. For a weight \<open>n \<le> 0\<close>, whenever the wait queue is empty and the
  test \<open>size - cur \<ge> n\<close> of the code holds, \<open>TryAcquire(n)\<close> returns true and the fast
  path of \<open>Acquire\<close> succeeds, both setting \<open>cur\<close> to \<open>cur + n\<close>. The test holds
  whenever \<open>cur \<le> size\<close> and the difference \<open>size - cur\<close> fits into \<open>int64\<close>, in
  particular whenever \<open>0 \<le> cur \<le> size\<close>. A negative weight decreases \<open>cur\<close> unless
  the sum wraps around. The witness has \<open>TryAcquire(0)\<close> succeed on a semaphore of
  capacity zero, and \<open>TryAcquire(-1)\<close> bring \<open>cur\<close> to \<open>-1\<close>.
\<close>

theorem C10_nonpositive_weight:
  "(n \<le>s 0 \<and> s_waiters s = [] \<and> n \<le>s s_size s - s_cur s \<longrightarrow>
      TryAcquire n s = (True, s\<lparr>s_cur := s_cur s + n\<rparr>) \<and>
      Acquire_lock n s = (Acquired, s\<lparr>s_cur := s_cur s + n\<rparr>)) \<and>
   (n \<le>s 0 \<and> s_cur s \<le>s s_size s \<and> sint (s_size s) - sint (s_cur s) < 9223372036854775808 \<longrightarrow>
      n \<le>s s_size s - s_cur s) \<and>
   (n \<le>s 0 \<and> 0 \<le>s s_cur s \<and> s_cur s \<le>s s_size s \<longrightarrow> n \<le>s s_size s - s_cur s) \<and>
   (n <s 0 \<and> - 9223372036854775808 \<le> sint (s_cur s) + sint n \<longrightarrow> s_cur s + n <s s_cur s)"
proof -
  have a: "n \<le>s 0 \<and> s_waiters s = [] \<and> n \<le>s s_size s - s_cur s \<longrightarrow>
      TryAcquire n s = (True, s\<lparr>s_cur := s_cur s + n\<rparr>) \<and>
      Acquire_lock n s = (Acquired, s\<lparr>s_cur := s_cur s + n\<rparr>)"
    by (simp add: TryAcquire_def Acquire_lock_def list_Len_def Let_def)
  have b: "n \<le>s 0 \<and> s_cur s \<le>s s_size s \<and> sint (s_size s) - sint (s_cur s) < 9223372036854775808 \<longrightarrow>
      n \<le>s s_size s - s_cur s"
  proof (intro impI, elim conjE)
    assume h: "n \<le>s 0" "s_cur s \<le>s s_size s" "sint (s_size s) - sint (s_cur s) < 9223372036854775808"
    from h(2) have "0 \<le> sint (s_size s) - sint (s_cur s)" by (simp add: word_sle_eq)
    with h(3) have "sint (s_size s - s_cur s) = sint (s_size s) - sint (s_cur s)"
      by (intro sint_sub_exact) simp_all
    with h(1,2) show "n \<le>s s_size s - s_cur s" by (simp add: word_sle_eq)
  qed
  have c: "n \<le>s 0 \<and> 0 \<le>s s_cur s \<and> s_cur s \<le>s s_size s \<longrightarrow> n \<le>s s_size s - s_cur s"
  proof (intro impI, elim conjE)
    assume h: "n \<le>s 0" "0 \<le>s s_cur s" "s_cur s \<le>s s_size s"
    then have "sint (s_size s) - sint (s_cur s) < 9223372036854775808"
      using sint64_bounds [of "s_size s"] by (simp add: word_sle_eq)
    with b h show "n \<le>s s_size s - s_cur s" by blast
  qed
  have d: "n <s 0 \<and> - 9223372036854775808 \<le> sint (s_cur s) + sint n \<longrightarrow> s_cur s + n <s s_cur s"
  proof (intro impI, elim conjE)
    assume h: "n <s 0" "- 9223372036854775808 \<le> sint (s_cur s) + sint n"
    from h(1) have "sint n < 0" by (simp add: word_sless_alt)
    with h(2) have "sint (s_cur s + n) = sint (s_cur s) + sint n"
      using sint64_bounds [of "s_cur s"] by (intro sint_add_exact) simp_all
    with \<open>sint n < 0\<close> show "s_cur s + n <s s_cur s" by (simp add: word_sless_alt)
  qed
  from a b c d show ?thesis by blast
qed

theorem C10_nonpositive_weight_witness:
  "TryAcquire 0 (NewWeighted 0) = (True, NewWeighted 0) \<and>
   TryAcquire (- 1) (NewWeighted 0) = (True, (NewWeighted 0)\<lparr>s_cur := - 1\<rparr>) \<and>
   Acquire_lock (- 1) (NewWeighted 0) = (Acquired, (NewWeighted 0)\<lparr>s_cur := - 1\<rparr>) \<and>
   (- 1 :: int64) <s 0"
  using C10_nonpositive_weight [of 0 "NewWeighted 0"] C10_nonpositive_weight [of "- 1" "NewWeighted 0"]
  by (simp add: NewWeighted_def)

text \<open>
  Claim C10 as it stands says that the test holds whenever \<open>cur \<le> size\<close>. After
  \<open>NewWeighted(2^63 - 1)\<close> and \<open>TryAcquire(-1)\<close> the queue is empty and
  \<open>cur = -1 \<le> size\<close>, but \<open>size - cur\<close> wraps around to a negative number and
  \<open>TryAcquire(0)\<close> returns false.
\<close>

theorem C10_overflow_counterexample:
  "snd (TryAcquire (- 1) (NewWeighted 9223372036854775807)) =
     (NewWeighted 9223372036854775807)\<lparr>s_cur := - 1\<rparr> \<and>
   s_waiters ((NewWeighted 9223372036854775807)\<lparr>s_cur := - 1\<rparr>) = [] \<and>
   s_cur ((NewWeighted 9223372036854775807)\<lparr>s_cur := - 1\<rparr>) \<le>s
     s_size ((NewWeighted 9223372036854775807)\<lparr>s_cur := - 1\<rparr>) \<and>
   (0 :: int64) \<le>s 0 \<and>
   TryAcquire 0 ((NewWeighted 9223372036854775807)\<lparr>s_cur := - 1\<rparr>) =
     (False, (NewWeighted 9223372036854775807)\<lparr>s_cur := - 1\<rparr>)"
  by (simp add: TryAcquire_def NewWeighted_def list_Len_def word_sle_eq)

subsection \<open>The wake cascade\<close>

lemma heap_ok_front:
  assumes "heap_ok s" "s_waiters s = (e, w) # rest"
  shows "e \<notin> fst ` set rest" "w_ready w \<notin> set (closed s)"
    "w_ready w \<notin> (\<lambda>x. w_ready (snd x)) ` set rest"
    "heap_ok (s\<lparr>s_cur := c, s_waiters := rest, closed := closed s @ [w_ready w]\<rparr>)"
proof -
  from assms show a: "e \<notin> fst ` set rest" and b: "w_ready w \<notin> set (closed s)"
    and c: "w_ready w \<notin> (\<lambda>x. w_ready (snd x)) ` set rest"
    by (auto simp: heap_ok_def queued_def)
  have d: "\<And>y. y \<in> set rest \<or> y \<in> set (s_impossibleWaiters s) \<Longrightarrow> w_ready (snd y) \<noteq> w_ready w"
    using assms by (auto simp: heap_ok_def queued_def image_iff)
  from assms d show "heap_ok (s\<lparr>s_cur := c, s_waiters := rest, closed := closed s @ [w_ready w]\<rparr>)"
    by (auto simp: heap_ok_def queued_def)
qed

lemma wake_cascade_grant:
  assumes "heap_ok s" "s_waiters s = (e, w) # rest" "\<not> s_size s - s_cur s <s w_n w"
  shows "wake_cascade s =
     wake_cascade (s\<lparr>s_cur := s_cur s + w_n w, s_waiters := rest,
                     closed := closed s @ [w_ready w]\<rparr>)"
  using heap_ok_front(1,2) [OF assms(1,2)] assms(3)
  by (simp add: wake_cascade_Cons [OF assms(2)] list_Remove_head)

lemma wake_cascade_prefix:
  "heap_ok s \<Longrightarrow> s_waiters s = ws \<Longrightarrow>
   \<exists>k \<le> length ws.
     wake_cascade s =
       (Returned, s\<lparr>s_cur := s_cur s + sum_list (weights (take k ws)),
                    s_waiters := drop k ws,
                    closed := closed s @ readys (take k ws)\<rparr>) \<and>
     (\<forall>i < k. w_n (snd (ws ! i)) \<le>s s_size s - (s_cur s + sum_list (weights (take i ws)))) \<and>
     (k < length ws \<longrightarrow>
        s_size s - (s_cur s + sum_list (weights (take k ws))) <s w_n (snd (ws ! k)))"
proof (induction ws arbitrary: s)
  case Nil
  then show ?case by (simp add: wake_cascade_Nil)
next
  case (Cons x rest)
  obtain e w where x: "x = (e, w)" by (cases x)
  with Cons.prems have l: "s_waiters s = (e, w) # rest" by simp
  show ?case
  proof (cases "s_size s - s_cur s <s w_n w")
    case True
    then have "wake_cascade s = (Returned, s)" by (simp add: wake_cascade_Cons [OF l])
    with True l x show ?thesis by (intro exI [of _ 0]) simp
  next
    case False
    let ?s' = "s\<lparr>s_cur := s_cur s + w_n w, s_waiters := rest, closed := closed s @ [w_ready w]\<rparr>"
    have ok: "heap_ok ?s'" by (rule heap_ok_front(4) [OF Cons.prems(1) l])
    have step: "wake_cascade s = wake_cascade ?s'"
      by (rule wake_cascade_grant [OF Cons.prems(1) l False])
    from Cons.IH [OF ok] obtain k where k: "k \<le> length rest"
      and res: "wake_cascade ?s' =
        (Returned, ?s'\<lparr>s_cur := s_cur ?s' + sum_list (weights (take k rest)),
                       s_waiters := drop k rest,
                       closed := closed ?s' @ readys (take k rest)\<rparr>)"
      and fit: "\<forall>i < k. w_n (snd (rest ! i)) \<le>s
                  s_size ?s' - (s_cur ?s' + sum_list (weights (take i rest)))"
      and stop: "k < length rest \<longrightarrow>
                  s_size ?s' - (s_cur ?s' + sum_list (weights (take k rest))) <s w_n (snd (rest ! k))"
      by auto
    have fit': "\<forall>i < Suc k. w_n (snd ((x # rest) ! i)) \<le>s
                  s_size s - (s_cur s + sum_list (weights (take i (x # rest))))"
    proof (intro allI impI)
      fix i assume i: "i < Suc k"
      show "w_n (snd ((x # rest) ! i)) \<le>s
              s_size s - (s_cur s + sum_list (weights (take i (x # rest))))"
      proof (cases i)
        case 0
        with False x show ?thesis by (simp add: signed.not_less)
      next
        case (Suc j)
        with i fit x show ?thesis by (simp add: add.assoc)
      qed
    qed
    show ?thesis
      using k step res stop fit' x
      by (intro exI [of _ "Suc k"]) (simp add: add.assoc)
  qed
qed

lemma heap_ok_take:
  assumes "heap_ok s"
  shows "distinct (readys (take k (s_waiters s)))"
    and "set (readys (take k (s_waiters s))) \<inter> set (closed s) = {}"
proof -
  from assms have d: "distinct (readys (s_waiters s))"
    and c: "\<forall>x \<in> set (s_waiters s). w_ready (snd x) \<notin> set (closed s)"
    by (auto simp: heap_ok_def queued_def)
  from d show "distinct (readys (take k (s_waiters s)))"
    by (simp add: take_map [symmetric] distinct_take)
  from c show "set (readys (take k (s_waiters s))) \<inter> set (closed s) = {}"
    by (auto dest: in_set_takeD)
qed

text \<open>
  Claim C2. The wake cascade, which is the loop that ends \<open>Release\<close> and the loop that
  ends \<open>Resize\<close>, grants a prefix of the wait queue and nothing else: for some \<open>k\<close>
  the first \<open>k\<close> waiters are removed, \<open>cur\<close> has grown by their weights and their
  channels, pairwise different and open before, are now closed, one after the other.
  Each of them fitted into \<open>size - cur\<close> when its turn came, and the waiter now at the
  front, if there is one, does not fit. In particular, when the front waiter does not
  fit, nothing is granted, whatever waits behind it.
\<close>

theorem C2_wake_cascade:
  "(heap_ok s \<longrightarrow>
      (\<exists>k \<le> length (s_waiters s).
         wake_cascade s =
           (Returned, s\<lparr>s_cur := s_cur s + sum_list (weights (take k (s_waiters s))),
                        s_waiters := drop k (s_waiters s),
                        closed := closed s @ readys (take k (s_waiters s))\<rparr>) \<and>
         (\<forall>i < k. w_n (snd (s_waiters s ! i)) \<le>s
                    s_size s - (s_cur s + sum_list (weights (take i (s_waiters s))))) \<and>
         (k < length (s_waiters s) \<longrightarrow>
            s_size s - (s_cur s + sum_list (weights (take k (s_waiters s)))) <s
              w_n (snd (s_waiters s ! k))) \<and>
         distinct (readys (take k (s_waiters s))) \<and>
         set (readys (take k (s_waiters s))) \<inter> set (closed s) = {})) \<and>
   (\<forall>e w rest. s_waiters s = (e, w) # rest \<and> s_size s - s_cur s <s w_n w \<longrightarrow>
      wake_cascade s = (Returned, s)) \<and>
   (\<not> s_cur s - n <s 0 \<longrightarrow> Release n s = wake_cascade (s\<lparr>s_cur := s_cur s - n\<rparr>)) \<and>
   (\<not> n <s 0 \<longrightarrow>
      Resize n s =
        wake_cascade
          (move_impossible
             (s_waiters (move_possible (s_impossibleWaiters s) (s\<lparr>s_size := n\<rparr>)))
             (move_possible (s_impossibleWaiters s) (s\<lparr>s_size := n\<rparr>))))"
proof -
  have a: "heap_ok s \<longrightarrow>
      (\<exists>k \<le> length (s_waiters s).
         wake_cascade s =
           (Returned, s\<lparr>s_cur := s_cur s + sum_list (weights (take k (s_waiters s))),
                        s_waiters := drop k (s_waiters s),
                        closed := closed s @ readys (take k (s_waiters s))\<rparr>) \<and>
         (\<forall>i < k. w_n (snd (s_waiters s ! i)) \<le>s
                    s_size s - (s_cur s + sum_list (weights (take i (s_waiters s))))) \<and>
         (k < length (s_waiters s) \<longrightarrow>
            s_size s - (s_cur s + sum_list (weights (take k (s_waiters s)))) <s
              w_n (snd (s_waiters s ! k))) \<and>
         distinct (readys (take k (s_waiters s))) \<and>
         set (readys (take k (s_waiters s))) \<inter> set (closed s) = {})"
  proof
    assume ok: "heap_ok s"
    from wake_cascade_prefix [OF ok refl] obtain k where
      "k \<le> length (s_waiters s)"
      "wake_cascade s =
           (Returned, s\<lparr>s_cur := s_cur s + sum_list (weights (take k (s_waiters s))),
                        s_waiters := drop k (s_waiters s),
                        closed := closed s @ readys (take k (s_waiters s))\<rparr>)"
      "\<forall>i < k. w_n (snd (s_waiters s ! i)) \<le>s
                    s_size s - (s_cur s + sum_list (weights (take i (s_waiters s))))"
      "k < length (s_waiters s) \<longrightarrow>
            s_size s - (s_cur s + sum_list (weights (take k (s_waiters s)))) <s
              w_n (snd (s_waiters s ! k))"
      by blast
    with heap_ok_take [OF ok, of k] show "\<exists>k \<le> length (s_waiters s).
         wake_cascade s =
           (Returned, s\<lparr>s_cur := s_cur s + sum_list (weights (take k (s_waiters s))),
                        s_waiters := drop k (s_waiters s),
                        closed := closed s @ readys (take k (s_waiters s))\<rparr>) \<and>
         (\<forall>i < k. w_n (snd (s_waiters s ! i)) \<le>s
                    s_size s - (s_cur s + sum_list (weights (take i (s_waiters s))))) \<and>
         (k < length (s_waiters s) \<longrightarrow>
            s_size s - (s_cur s + sum_list (weights (take k (s_waiters s)))) <s
              w_n (snd (s_waiters s ! k))) \<and>
         distinct (readys (take k (s_waiters s))) \<and>
         set (readys (take k (s_waiters s))) \<inter> set (closed s) = {}"
      by blast
  qed
  have b: "\<forall>e w rest. s_waiters s = (e, w) # rest \<and> s_size s - s_cur s <s w_n w \<longrightarrow>
      wake_cascade s = (Returned, s)"
    by (auto simp: wake_cascade_Cons)
  have c: "\<not> s_cur s - n <s 0 \<longrightarrow> Release n s = wake_cascade (s\<lparr>s_cur := s_cur s - n\<rparr>)"
    by (simp add: Release_def Let_def)
  have d: "\<not> n <s 0 \<longrightarrow>
      Resize n s =
        wake_cascade
          (move_impossible
             (s_waiters (move_possible (s_impossibleWaiters s) (s\<lparr>s_size := n\<rparr>)))
             (move_possible (s_impossibleWaiters s) (s\<lparr>s_size := n\<rparr>)))"
    by (simp add: Resize_def Let_def)
  from a b c d show ?thesis by blast
qed

theorem C2_wake_cascade_witness:
  "heap_ok (head_of_line\<lparr>s_cur := 1\<rparr>) \<and>
   Release 1 head_of_line = (Returned, head_of_line\<lparr>s_cur := 1\<rparr>) \<and>
   (1 :: int64) \<le>s 2 - 1 \<and>
   (\<exists>k \<le> length (s_waiters (head_of_line\<lparr>s_cur := 1\<rparr>)).
      wake_cascade (head_of_line\<lparr>s_cur := 1\<rparr>) =
        (Returned, head_of_line\<lparr>s_cur := 1 + sum_list (weights (take k (s_waiters head_of_line))),
                     s_waiters := drop k (s_waiters head_of_line),
                     closed := readys (take k (s_waiters head_of_line))\<rparr>))"
proof -
  have ok: "heap_ok (head_of_line\<lparr>s_cur := 1\<rparr>)"
    by (simp add: heap_ok_def queued_def head_of_line_def)
  have w: "s_waiters (head_of_line\<lparr>s_cur := 1\<rparr>) =
      (1, \<lparr>w_n = 2, w_ready = 0\<rparr>) # [(3, \<lparr>w_n = 1, w_ready = 2\<rparr>)]"
    by (simp add: head_of_line_def)
  have lt: "s_size (head_of_line\<lparr>s_cur := 1\<rparr>) - s_cur (head_of_line\<lparr>s_cur := 1\<rparr>) <s
      w_n \<lparr>w_n = 2, w_ready = 0\<rparr>"
    by (simp add: head_of_line_def word_sless_alt)
  have r: "\<not> s_cur head_of_line - 1 <s 0"
    by (simp add: head_of_line_def word_sless_alt)
  have c: "s_cur head_of_line - 1 = 1" by (simp add: head_of_line_def)
  note t = C2_wake_cascade [of "head_of_line\<lparr>s_cur := 1\<rparr>" 0]
  note u = C2_wake_cascade [of head_of_line 1]
  from t ok have e: "\<exists>k \<le> length (s_waiters (head_of_line\<lparr>s_cur := 1\<rparr>)).
      wake_cascade (head_of_line\<lparr>s_cur := 1\<rparr>) =
        (Returned, head_of_line\<lparr>s_cur := 1 + sum_list (weights (take k (s_waiters head_of_line))),
                     s_waiters := drop k (s_waiters head_of_line),
                     closed := readys (take k (s_waiters head_of_line))\<rparr>)"
    by (simp add: head_of_line_def) blast
  from t w lt have "wake_cascade (head_of_line\<lparr>s_cur := 1\<rparr>) = (Returned, head_of_line\<lparr>s_cur := 1\<rparr>)"
    by blast
  with u r c have "Release 1 head_of_line = (Returned, head_of_line\<lparr>s_cur := 1\<rparr>)"
    by simp
  with ok e show ?thesis by (simp add: word_sle_eq)
qed

subsection \<open>The two reclassification loops\<close>

lemma not_fits: "\<not> fits n x \<longleftrightarrow> n <s w_n (snd x)"
  by (simp add: fits_def signed.not_le)

lemma renumber_Nil [simp]: "renumber f [] = []"
  by (simp add: renumber_def)

lemma renumber_Cons: "renumber f (x # l) = (f, snd x) # renumber (Suc f) l"
proof -
  have "[f ..< f + length (x # l)] = f # [Suc f ..< Suc f + length l]"
    by (subst upt_rec) simp
  then show ?thesis by (simp add: renumber_def)
qed

lemma map_snd_renumber [simp]: "map snd (renumber f l) = map snd l"
  by (simp add: renumber_def)

lemma map_fst_renumber [simp]: "map fst (renumber f l) = [f ..< f + length l]"
  by (simp add: renumber_def)

lemma length_renumber [simp]: "length (renumber f l) = length l"
  by (simp add: renumber_def)

lemma move_possible_frame:
  "s_size (move_possible todo s) = s_size s \<and> s_cur (move_possible todo s) = s_cur s \<and>
   closed (move_possible todo s) = closed s"
  by (induction todo arbitrary: s) (auto simp: Let_def)

lemma move_impossible_frame:
  "s_size (move_impossible todo s) = s_size s \<and> s_cur (move_impossible todo s) = s_cur s \<and>
   closed (move_impossible todo s) = closed s"
  by (induction todo arbitrary: s) (auto simp: Let_def)

lemma move_possible_pushed:
  "s_waiters (move_possible todo s) =
     s_waiters s @ renumber (fresh s) (filter (fits (s_size s)) todo) \<and>
   fresh (move_possible todo s) = fresh s + length (filter (fits (s_size s)) todo)"
proof (induction todo arbitrary: s)
  case Nil
  then show ?case by simp
next
  case (Cons x todo)
  obtain e w where x: "x = (e, w)" by (cases x)
  show ?case
  proof (cases "fits (s_size s) x")
    case True
    with x have "\<not> s_size s <s w_n w" by (simp add: fits_def signed.not_less)
    with True x show ?thesis
      using Cons.IH by (simp add: Let_def list_PushBack_def renumber_Cons)
  next
    case False
    with x have "s_size s <s w_n w" by (simp add: not_fits)
    with False x show ?thesis using Cons.IH by simp
  qed
qed

lemma move_impossible_pushed:
  "s_impossibleWaiters (move_impossible todo s) =
     s_impossibleWaiters s @ renumber (fresh s) (filter (\<lambda>x. \<not> fits (s_size s) x) todo) \<and>
   fresh (move_impossible todo s) = fresh s + length (filter (\<lambda>x. \<not> fits (s_size s) x) todo)"
proof (induction todo arbitrary: s)
  case Nil
  then show ?case by simp
next
  case (Cons x todo)
  obtain e w where x: "x = (e, w)" by (cases x)
  show ?case
  proof (cases "fits (s_size s) x")
    case True
    with x have "w_n w \<le>s s_size s" by (simp add: fits_def)
    with True x show ?thesis using Cons.IH by simp
  next
    case False
    with x have "\<not> w_n w \<le>s s_size s" by (simp add: fits_def)
    with False x show ?thesis
      using Cons.IH by (simp add: Let_def list_PushBack_def renumber_Cons)
  qed
qed

lemma filter_fst_neq:
  assumes "distinct (map fst l)" "(e, w) \<in> set l"
  shows "filter (\<lambda>x. fst x \<noteq> e) l = filter (\<lambda>x. x \<noteq> (e, w)) l"
proof (rule filter_cong [OF refl])
  fix x assume m: "x \<in> set l"
  obtain a b where x: "x = (a, b)" by (cases x)
  from assms m x have "a = e \<Longrightarrow> b = w"
    using eq_key_imp_eq_value [of l e b w] by simp
  with x show "(fst x \<noteq> e) = (x \<noteq> (e, w))" by auto
qed

lemma move_possible_removed:
  "distinct (map fst (s_impossibleWaiters s)) \<Longrightarrow> distinct (map fst todo) \<Longrightarrow>
   set todo \<subseteq> set (s_impossibleWaiters s) \<Longrightarrow>
   s_impossibleWaiters (move_possible todo s) =
     filter (\<lambda>x. x \<notin> set todo \<or> \<not> fits (s_size s) x) (s_impossibleWaiters s)"
proof (induction todo arbitrary: s)
  case Nil
  then show ?case by simp
next
  case (Cons x todo)
  obtain e w where x: "x = (e, w)" by (cases x)
  show ?case
  proof (cases "fits (s_size s) x")
    case False
    with x have lt: "s_size s <s w_n w" by (simp add: not_fits)
    have "s_impossibleWaiters (move_possible todo s) =
        filter (\<lambda>y. y \<notin> set todo \<or> \<not> fits (s_size s) y) (s_impossibleWaiters s)"
      using Cons.prems by (intro Cons.IH) auto
    also have "\<dots> = filter (\<lambda>y. y \<notin> set (x # todo) \<or> \<not> fits (s_size s) y) (s_impossibleWaiters s)"
      using False by (intro filter_cong) auto
    finally show ?thesis using lt x by simp
  next
    case True
    with x have ge: "\<not> s_size s <s w_n w" by (simp add: fits_def signed.not_less)
    let ?s2 = "s\<lparr>s_waiters := list_PushBack (s_waiters s) (fresh s) w, fresh := Suc (fresh s),
                  s_impossibleWaiters := list_Remove (s_impossibleWaiters s) e\<rparr>"
    from Cons.prems x have mem: "(e, w) \<in> set (s_impossibleWaiters s)" by simp
    have rm: "list_Remove (s_impossibleWaiters s) e = filter (\<lambda>y. y \<noteq> (e, w)) (s_impossibleWaiters s)"
      using filter_fst_neq [OF Cons.prems(1) mem] by (simp add: list_Remove_filter)
    from Cons.prems(2) x have notin: "(e, w) \<notin> set todo"
      by (auto simp: image_iff)
    have "s_impossibleWaiters (move_possible todo ?s2) =
        filter (\<lambda>y. y \<notin> set todo \<or> \<not> fits (s_size ?s2) y) (s_impossibleWaiters ?s2)"
      using Cons.prems notin by (intro Cons.IH) (auto simp: rm distinct_map_filter)
    also have "\<dots> = filter (\<lambda>y. y \<notin> set (x # todo) \<or> \<not> fits (s_size s) y) (s_impossibleWaiters s)"
      using True x by (auto simp: rm intro: filter_cong)
    finally show ?thesis using ge x by (simp add: Let_def)
  qed
qed

lemma move_impossible_removed:
  "distinct (map fst (s_waiters s)) \<Longrightarrow> distinct (map fst todo) \<Longrightarrow>
   set todo \<subseteq> set (s_waiters s) \<Longrightarrow>
   s_waiters (move_impossible todo s) =
     filter (\<lambda>x. x \<notin> set todo \<or> fits (s_size s) x) (s_waiters s)"
proof (induction todo arbitrary: s)
  case Nil
  then show ?case by simp
next
  case (Cons x todo)
  obtain e w where x: "x = (e, w)" by (cases x)
  show ?case
  proof (cases "fits (s_size s) x")
    case True
    with x have ge: "w_n w \<le>s s_size s" by (simp add: fits_def)
    have "s_waiters (move_impossible todo s) =
        filter (\<lambda>y. y \<notin> set todo \<or> fits (s_size s) y) (s_waiters s)"
      using Cons.prems by (intro Cons.IH) auto
    also have "\<dots> = filter (\<lambda>y. y \<notin> set (x # todo) \<or> fits (s_size s) y) (s_waiters s)"
      using True by (intro filter_cong) auto
    finally show ?thesis using ge x by simp
  next
    case False
    with x have lt: "\<not> w_n w \<le>s s_size s" by (simp add: fits_def)
    let ?s2 = "s\<lparr>s_impossibleWaiters := list_PushBack (s_impossibleWaiters s) (fresh s) w,
                  fresh := Suc (fresh s),
                  s_waiters := list_Remove (s_waiters s) e\<rparr>"
    from Cons.prems x have mem: "(e, w) \<in> set (s_waiters s)" by simp
    have rm: "list_Remove (s_waiters s) e = filter (\<lambda>y. y \<noteq> (e, w)) (s_waiters s)"
      using filter_fst_neq [OF Cons.prems(1) mem] by (simp add: list_Remove_filter)
    from Cons.prems(2) x have notin: "(e, w) \<notin> set todo"
      by (auto simp: image_iff)
    have "s_waiters (move_impossible todo ?s2) =
        filter (\<lambda>y. y \<notin> set todo \<or> fits (s_size ?s2) y) (s_waiters ?s2)"
      using Cons.prems notin by (intro Cons.IH) (auto simp: rm distinct_map_filter)
    also have "\<dots> = filter (\<lambda>y. y \<notin> set (x # todo) \<or> fits (s_size s) y) (s_waiters s)"
      using False x by (auto simp: rm intro: filter_cong)
    finally show ?thesis using lt x by (simp add: Let_def)
  qed
qed

subsection \<open>Resize before its cascade\<close>

lemma Resize_reclassified:
  "\<not> n <s 0 \<Longrightarrow> Resize n s = wake_cascade (reclassified n s)"
  by (simp add: Resize_def reclassified_def Let_def)

lemma reclassified_frame:
  "s_size (reclassified n s) = n \<and> s_cur (reclassified n s) = s_cur s \<and>
   closed (reclassified n s) = closed s"
  by (simp add: reclassified_def Let_def move_possible_frame move_impossible_frame)

lemma all_fit_renumber:
  "\<forall>x \<in> set l. P (snd x) \<Longrightarrow> \<forall>x \<in> set (renumber f l). P (snd x)"
  by (auto simp: renumber_def dest!: set_zip_rightD)

lemma filter_fits_renumber:
  "filter (fits n) (renumber f (filter (fits n) l)) = renumber f (filter (fits n) l)"
proof (rule filter_True)
  have "\<forall>x \<in> set (filter (fits n) l). (\<lambda>v. w_n v \<le>s n) (snd x)"
    by (simp add: fits_def)
  then have "\<forall>x \<in> set (renumber f (filter (fits n) l)). (\<lambda>v. w_n v \<le>s n) (snd x)"
    by (rule all_fit_renumber)
  then show "\<forall>x \<in> set (renumber f (filter (fits n) l)). fits n x"
    by (simp add: fits_def)
qed

lemma filter_unfit_renumber:
  "filter (\<lambda>x. \<not> fits n x) (renumber f (filter (fits n) l)) = []"
proof -
  have "filter (\<lambda>x. \<not> fits n x) (filter (fits n) (renumber f (filter (fits n) l))) = []"
    by (simp add: filter_empty_conv)
  then show ?thesis by (simp only: filter_fits_renumber)
qed

lemma filter_member_imp: "filter (\<lambda>x. x \<in> set l \<longrightarrow> P x) l = filter P l"
  by (rule filter_cong) auto

lemma heap_ok_ids:
  assumes "heap_ok s"
  shows "distinct (map fst (s_waiters s))" "distinct (map fst (s_impossibleWaiters s))"
    "\<forall>x \<in> set (s_waiters s). fst x < fresh s"
    "\<forall>x \<in> set (s_impossibleWaiters s). fst x < fresh s"
    "fst ` set (s_waiters s) \<inter> fst ` set (s_impossibleWaiters s) = {}"
  using assms by (auto simp: heap_ok_def queued_def)

lemma reclassified_lists:
  assumes ok: "heap_ok s"
  shows "s_waiters (reclassified n s) =
           filter (fits n) (s_waiters s) @
           renumber (fresh s) (filter (fits n) (s_impossibleWaiters s))"
    and "s_impossibleWaiters (reclassified n s) =
           filter (\<lambda>x. \<not> fits n x) (s_impossibleWaiters s) @
           renumber (fresh s + length (filter (fits n) (s_impossibleWaiters s)))
             (filter (\<lambda>x. \<not> fits n x) (s_waiters s))"
    and "fresh (reclassified n s) =
           fresh s + length (filter (fits n) (s_impossibleWaiters s)) +
           length (filter (\<lambda>x. \<not> fits n x) (s_waiters s))"
proof -
  let ?s1 = "s\<lparr>s_size := n\<rparr>"
  let ?s2 = "move_possible (s_impossibleWaiters s) ?s1"
  let ?F = "filter (fits n) (s_impossibleWaiters s)"
  have r: "reclassified n s = move_impossible (s_waiters ?s2) ?s2"
    by (simp add: reclassified_def Let_def)
  have sz2: "s_size ?s2 = n" by (simp add: move_possible_frame)
  have w2: "s_waiters ?s2 = s_waiters s @ renumber (fresh s) ?F"
    and f2: "fresh ?s2 = fresh s + length ?F"
    using move_possible_pushed [of "s_impossibleWaiters s" ?s1] by simp_all
  have i2: "s_impossibleWaiters ?s2 = filter (\<lambda>x. \<not> fits n x) (s_impossibleWaiters s)"
    using move_possible_removed [of ?s1 "s_impossibleWaiters s"] heap_ok_ids(2) [OF ok]
    by (simp add: filter_member_imp)
  have d2: "distinct (map fst (s_waiters ?s2))"
    using heap_ok_ids(1,3) [OF ok] by (auto simp: w2)
  have "s_waiters (reclassified n s) = filter (fits n) (s_waiters ?s2)"
    using move_impossible_removed [OF d2 d2 subset_refl] by (simp add: r sz2 filter_member_imp)
  then show "s_waiters (reclassified n s) =
           filter (fits n) (s_waiters s) @ renumber (fresh s) ?F"
    by (simp add: w2 filter_fits_renumber)
  have u: "filter (\<lambda>x. \<not> fits n x) (s_waiters ?s2) = filter (\<lambda>x. \<not> fits n x) (s_waiters s)"
    by (simp add: w2 filter_unfit_renumber)
  from move_impossible_pushed [of "s_waiters ?s2" ?s2]
  show "s_impossibleWaiters (reclassified n s) =
           filter (\<lambda>x. \<not> fits n x) (s_impossibleWaiters s) @
           renumber (fresh s + length ?F) (filter (\<lambda>x. \<not> fits n x) (s_waiters s))"
    and "fresh (reclassified n s) =
           fresh s + length ?F + length (filter (\<lambda>x. \<not> fits n x) (s_waiters s))"
    by (simp_all add: r sz2 u i2 f2)
qed

lemma map_of_snd: "map (\<lambda>x. g (snd x)) l = map g (map snd l)"
  by (simp add: comp_def)

lemma readys_renumber [simp]: "readys (renumber f l) = readys l"
  by (simp only: map_of_snd map_snd_renumber)

lemma weights_renumber [simp]: "weights (renumber f l) = weights l"
  by (simp only: map_of_snd map_snd_renumber)

lemma reclassified_readys:
  assumes "heap_ok s"
  shows "mset (readys (queued (reclassified n s))) = mset (readys (queued s))"
proof -
  have p: "\<And>l. mset (readys (filter (fits n) l)) + mset (readys (filter (\<lambda>x. \<not> fits n x) l)) =
      mset (readys l)"
  proof -
    fix l :: wlist
    show "mset (readys (filter (fits n) l)) + mset (readys (filter (\<lambda>x. \<not> fits n x) l)) =
      mset (readys l)"
      by (induction l) auto
  qed
  have "mset (readys (queued (reclassified n s))) =
      (mset (readys (filter (fits n) (s_waiters s))) +
       mset (readys (filter (\<lambda>x. \<not> fits n x) (s_waiters s)))) +
      (mset (readys (filter (fits n) (s_impossibleWaiters s))) +
       mset (readys (filter (\<lambda>x. \<not> fits n x) (s_impossibleWaiters s))))"
    by (simp add: queued_def reclassified_lists [OF assms])
  then show ?thesis by (simp only: p) (simp add: queued_def)
qed

lemma heap_ok_reclassified:
  assumes ok: "heap_ok s"
  shows "heap_ok (reclassified n s)"
proof -
  note l = reclassified_lists [OF ok, of n]
  have a: "distinct (map fst (queued (reclassified n s)))"
    using heap_ok_ids [OF ok]
    by (auto simp: queued_def l distinct_map_filter)
  from ok have "distinct (readys (queued s))" by (simp add: heap_ok_def)
  with reclassified_readys [OF ok, of n]
  have b: "distinct (readys (queued (reclassified n s)))"
    by (metis mset_eq_imp_distinct_iff)
  have s: "set (readys (queued (reclassified n s))) = set (readys (queued s))"
    using reclassified_readys [OF ok, of n] by (rule mset_eq_setD)
  have c: "\<forall>x \<in> set (queued (reclassified n s)).
      w_ready (snd x) < fresh (reclassified n s) \<and>
      w_ready (snd x) \<notin> set (closed (reclassified n s))"
  proof
    fix x assume "x \<in> set (queued (reclassified n s))"
    then have "w_ready (snd x) \<in> set (readys (queued s))" unfolding s [symmetric] by simp
    then obtain y where "y \<in> set (queued s)" "w_ready (snd y) = w_ready (snd x)" by auto
    with ok show "w_ready (snd x) < fresh (reclassified n s) \<and>
      w_ready (snd x) \<notin> set (closed (reclassified n s))"
      by (auto simp: heap_ok_def l reclassified_frame)
  qed
  have d: "\<forall>x \<in> set (queued (reclassified n s)). fst x < fresh (reclassified n s)"
  proof
    fix x assume "x \<in> set (queued (reclassified n s))"
    then have "fst x \<in> set (map fst (queued (reclassified n s)))" by simp
    then show "fst x < fresh (reclassified n s)"
      using heap_ok_ids(3,4) [OF ok] by (auto simp: queued_def l)
  qed
  have e: "\<forall>c \<in> set (closed (reclassified n s)). c < fresh (reclassified n s)"
    using ok by (auto simp: heap_ok_def l reclassified_frame)
  from a b c d e show ?thesis by (simp add: heap_ok_def)
qed

subsection \<open>What the cascade does to \<open>cur\<close>\<close>

lemma wake_cascade_induct2 [case_names Empty Stop Panic Grant]:
  fixes P :: "Weighted \<Rightarrow> bool"
  assumes "\<And>s. s_waiters s = [] \<Longrightarrow> P s"
    and "\<And>s e w rest. s_waiters s = (e, w) # rest \<Longrightarrow> s_size s - s_cur s <s w_n w \<Longrightarrow> P s"
    and "\<And>s e w rest. s_waiters s = (e, w) # rest \<Longrightarrow> \<not> s_size s - s_cur s <s w_n w \<Longrightarrow>
           w_ready w \<in> set (closed s) \<Longrightarrow> P s"
    and "\<And>s e w rest. s_waiters s = (e, w) # rest \<Longrightarrow> \<not> s_size s - s_cur s <s w_n w \<Longrightarrow>
           w_ready w \<notin> set (closed s) \<Longrightarrow>
           P (s\<lparr>s_cur := s_cur s + w_n w, s_waiters := list_Remove ((e, w) # rest) e,
                 closed := closed s @ [w_ready w]\<rparr>) \<Longrightarrow> P s"
  shows "P s"
proof (induction s rule: wake_cascade.induct)
  case (1 s)
  show ?case
  proof (cases "s_waiters s")
    case Nil
    then show ?thesis by (rule assms(1))
  next
    case (Cons x rest)
    obtain e w where x: "x = (e, w)" by (cases x)
    with Cons have l: "s_waiters s = (e, w) # rest" by simp
    have f: "list_Front (s_waiters s) = Some (e, w)" by (simp add: l list_Front_def)
    show ?thesis
    proof (cases "s_size s - s_cur s <s w_n w")
      case True
      with l show ?thesis by (rule assms(2))
    next
      case False
      show ?thesis
      proof (cases "w_ready w \<in> set (closed s)")
        case True
        with l False show ?thesis by (rule assms(3))
      next
        case False': False
        have "P (s\<lparr>s_cur := s_cur s + w_n w, s_waiters := list_Remove ((e, w) # rest) e,
                 closed := closed s @ [w_ready w]\<rparr>)"
          using "1.IH" [OF f refl False refl refl] False' l by simp
        with l False False' show ?thesis by (rule assms(4))
      qed
    qed
  qed
qed

lemma grant_exact:
  fixes sz c w :: int64
  assumes "0 \<le>s sz" "0 \<le>s c" "0 \<le>s w" "\<not> sz - c <s w"
  shows "sint (c + w) = sint c + sint w" and "c + w \<le>s sz" and "0 \<le>s c + w"
proof -
  from assms(1,2) have "sint (sz - c) = sint sz - sint c" by (rule sint_sub_nonneg)
  with assms(4) have le: "sint c + sint w \<le> sint sz" by (simp add: word_sless_alt)
  from assms(2,3) have nn: "0 \<le> sint c" "0 \<le> sint w" by (simp_all add: word_sle_eq)
  from le nn sint64_bounds [of sz] show e: "sint (c + w) = sint c + sint w"
    by (intro sint_add_exact) simp_all
  from e le show "c + w \<le>s sz" by (simp add: word_sle_eq)
  from e nn show "0 \<le>s c + w" by (simp add: word_sle_eq)
qed

lemma grant_mono:
  fixes sz c w :: int64
  assumes "0 \<le>s sz" "0 \<le>s w" "\<not> sz - c <s w"
  shows "c \<le>s c + w"
proof (cases "0 \<le>s c")
  case True
  from grant_exact(1) [OF assms(1) True assms(2,3)] assms(2) show ?thesis
    by (simp add: word_sle_eq)
next
  case False
  then have "sint c < 0" by (simp add: word_sle_eq)
  moreover from assms(2) have "0 \<le> sint w" by (simp add: word_sle_eq)
  ultimately have "sint (c + w) = sint c + sint w"
    using sint64_bounds [of c] sint64_bounds [of w] by (intro sint_add_exact) simp_all
  with \<open>0 \<le> sint w\<close> show ?thesis by (simp add: word_sle_eq)
qed

lemma set_list_Remove: "set (list_Remove l e) \<subseteq> set l"
  by (auto simp: list_Remove_filter)

lemma wake_cascade_frame:
  "s_size (snd (wake_cascade s)) = s_size s \<and>
   s_impossibleWaiters (snd (wake_cascade s)) = s_impossibleWaiters s \<and>
   fresh (snd (wake_cascade s)) = fresh s \<and>
   set (s_waiters (snd (wake_cascade s))) \<subseteq> set (s_waiters s)"
proof (induction s rule: wake_cascade_induct2)
  case (Empty s)
  then show ?case by (simp add: wake_cascade_Nil)
next
  case (Stop s e w rest)
  then show ?case by (simp add: wake_cascade_Cons)
next
  case (Panic s e w rest)
  then show ?case using set_list_Remove [of "(e, w) # rest" e]
    by (auto simp: wake_cascade_Cons)
next
  case (Grant s e w rest)
  then show ?case using set_list_Remove [of "(e, w) # rest" e]
    by (auto simp: wake_cascade_Cons)
qed

lemma wake_cascade_cur_mono:
  "0 \<le>s s_size s \<Longrightarrow> \<forall>x \<in> set (s_waiters s). 0 \<le>s w_n (snd x) \<Longrightarrow>
   s_cur s \<le>s s_cur (snd (wake_cascade s))"
proof (induction s rule: wake_cascade_induct2)
  case (Empty s)
  then show ?case by (simp add: wake_cascade_Nil)
next
  case (Stop s e w rest)
  then show ?case by (simp add: wake_cascade_Cons)
next
  case (Panic s e w rest)
  then have "s_cur s \<le>s s_cur s + w_n w" by (intro grant_mono [of "s_size s"]) simp_all
  with Panic show ?case by (simp add: wake_cascade_Cons)
next
  case (Grant s e w rest)
  let ?s' = "s\<lparr>s_cur := s_cur s + w_n w, s_waiters := list_Remove ((e, w) # rest) e,
                 closed := closed s @ [w_ready w]\<rparr>"
  from Grant have a: "s_cur s \<le>s s_cur s + w_n w" by (intro grant_mono [of "s_size s"]) simp_all
  have "\<forall>x \<in> set (s_waiters ?s'). 0 \<le>s w_n (snd x)"
    using Grant.prems(2) Grant.hyps(1) set_list_Remove [of "(e, w) # rest" e] by auto
  with Grant have "s_cur ?s' \<le>s s_cur (snd (wake_cascade ?s'))" by simp
  with a have "s_cur s \<le>s s_cur (snd (wake_cascade ?s'))" by simp
  with Grant show ?case by (simp add: wake_cascade_Cons)
qed

subsection \<open>The heap stays well formed\<close>

lemma heap_ok_cur [simp]: "heap_ok (s\<lparr>s_cur := c\<rparr>) = heap_ok s"
  by (simp add: heap_ok_def queued_def)

lemma heap_ok_NewWeighted: "heap_ok (NewWeighted c)"
  by (simp add: heap_ok_def queued_def NewWeighted_def)

lemma heap_ok_wake_cascade:
  "heap_ok s \<Longrightarrow> heap_ok (snd (wake_cascade s)) \<and> fst (wake_cascade s) = Returned"
proof (induction s rule: wake_cascade_induct2)
  case (Empty s)
  then show ?case by (simp add: wake_cascade_Nil)
next
  case (Stop s e w rest)
  then show ?case by (simp add: wake_cascade_Cons)
next
  case (Panic s e w rest)
  with heap_ok_front(2) [OF Panic.prems Panic.hyps(1)] show ?case by simp
next
  case (Grant s e w rest)
  have r: "list_Remove ((e, w) # rest) e = rest"
    using heap_ok_front(1) [OF Grant.prems Grant.hyps(1)] by (rule list_Remove_head)
  have "heap_ok (s\<lparr>s_cur := s_cur s + w_n w, s_waiters := rest, closed := closed s @ [w_ready w]\<rparr>)"
    by (rule heap_ok_front(4) [OF Grant.prems Grant.hyps(1)])
  with Grant r show ?case by (simp add: wake_cascade_Cons)
qed

lemma heap_ok_Release: "heap_ok s \<Longrightarrow> heap_ok (snd (Release n s))"
  using heap_ok_wake_cascade [of "s\<lparr>s_cur := s_cur s - n\<rparr>"]
  by (simp add: Release_def Let_def)

lemma heap_ok_Resize:
  assumes "heap_ok s" "\<not> n <s 0"
  shows "heap_ok (snd (Resize n s))" "fst (Resize n s) = Returned"
  using heap_ok_wake_cascade [OF heap_ok_reclassified [OF assms(1), of n]] assms(2)
  by (simp_all add: Resize_reclassified)

lemma heap_ok_TryAcquire: "heap_ok s \<Longrightarrow> heap_ok (snd (TryAcquire n s))"
  by (simp add: TryAcquire_def Let_def)

lemma heap_ok_push:
  assumes ok: "heap_ok s" and e: "fresh s \<le> e" "e < f" and r: "fresh s \<le> r" "r < f"
  shows "heap_ok (push_waiter q e \<lparr>w_n = n, w_ready = r\<rparr> (s\<lparr>fresh := f\<rparr>))"
proof -
  have old: "\<forall>x \<in> set (queued s). fst x \<noteq> e \<and> w_ready (snd x) \<noteq> r \<and> fst x < f \<and>
      w_ready (snd x) < f \<and> w_ready (snd x) \<notin> set (closed s)"
  proof
    fix x assume "x \<in> set (queued s)"
    with ok have "fst x < fresh s" "w_ready (snd x) < fresh s" "w_ready (snd x) \<notin> set (closed s)"
      by (simp_all add: heap_ok_def)
    with e r show "fst x \<noteq> e \<and> w_ready (snd x) \<noteq> r \<and> fst x < f \<and>
      w_ready (snd x) < f \<and> w_ready (snd x) \<notin> set (closed s)" by simp
  qed
  have cl: "\<forall>c \<in> set (closed s). c \<noteq> r \<and> c < f"
  proof
    fix c assume "c \<in> set (closed s)"
    with ok have "c < fresh s" by (simp add: heap_ok_def)
    with r show "c \<noteq> r \<and> c < f" by simp
  qed
  from old have new: "e \<notin> set (map fst (queued s))" "r \<notin> set (readys (queued s))"
    by (auto simp: image_iff)
  from ok have d: "distinct (map fst (queued s))" "distinct (readys (queued s))"
    by (simp_all add: heap_ok_def)
  let ?s' = "push_waiter q e \<lparr>w_n = n, w_ready = r\<rparr> (s\<lparr>fresh := f\<rparr>)"
  have m: "mset (queued ?s') = add_mset (e, \<lparr>w_n = n, w_ready = r\<rparr>) (mset (queued s))"
    by (cases q) (simp_all add: queued_def push_waiter_def list_PushBack_def)
  have fr: "fresh ?s' = f" "closed ?s' = closed s"
    by (cases q; simp add: push_waiter_def)+
  have "mset (map fst (queued ?s')) = mset (map fst ((e, \<lparr>w_n = n, w_ready = r\<rparr>) # queued s))"
    by (simp add: m)
  then have a: "distinct (map fst (queued ?s'))"
    using d(1) new(1) by (metis mset_eq_imp_distinct_iff distinct.simps(2) list.simps(9) fst_conv)
  have "mset (readys (queued ?s')) = mset (readys ((e, \<lparr>w_n = n, w_ready = r\<rparr>) # queued s))"
    by (simp add: m)
  then have b: "distinct (readys (queued ?s'))"
    using d(2) new(2) mset_eq_imp_distinct_iff [of "readys (queued ?s')"] by fastforce
  have s: "set (queued ?s') = insert (e, \<lparr>w_n = n, w_ready = r\<rparr>) (set (queued s))"
    using m by (metis set_mset_mset set_mset_add_mset_insert)
  have c: "\<forall>x \<in> set (queued ?s'). fst x < fresh ?s' \<and> w_ready (snd x) < fresh ?s' \<and>
      w_ready (snd x) \<notin> set (closed ?s')"
    using old cl e r by (auto simp: s fr)
  from a b c cl show ?thesis by (simp add: heap_ok_def fr)
qed

lemma heap_ok_Acquire_lock: "heap_ok s \<Longrightarrow> heap_ok (snd (Acquire_lock n s))"
  using heap_ok_push [of s "Suc (fresh s)" "Suc (Suc (fresh s))" "fresh s"]
  by (simp add: Acquire_lock_def Let_def)

lemma heap_ok_Acquire_ctx_done: "heap_ok s \<Longrightarrow> heap_ok (snd (Acquire_ctx_done p s))"
  by (cases "waiterList p")
    (auto simp: Acquire_ctx_done_def remove_waiter_def list_Remove_filter heap_ok_def
      queued_def distinct_map_filter)

subsection \<open>The lists stay classified\<close>

lemma classified_cur [simp]: "classified (s\<lparr>s_cur := c\<rparr>) = classified s"
  by (simp add: classified_def)

lemma classified_NewWeighted: "classified (NewWeighted c)"
  by (simp add: classified_def NewWeighted_def)

lemma classified_wake_cascade: "classified s \<Longrightarrow> classified (snd (wake_cascade s))"
  using wake_cascade_frame [of s] by (auto simp: classified_def)

lemma classified_Release: "classified s \<Longrightarrow> classified (snd (Release n s))"
  using classified_wake_cascade [of "s\<lparr>s_cur := s_cur s - n\<rparr>"]
  by (simp add: Release_def Let_def)

lemma classified_reclassified:
  assumes "heap_ok s"
  shows "classified (reclassified n s)"
proof -
  have a: "\<forall>x \<in> set (renumber (fresh s) (filter (fits n) (s_impossibleWaiters s))).
      w_n (snd x) \<le>s n"
    by (rule all_fit_renumber) (simp add: fits_def)
  have b: "\<forall>x \<in> set (renumber (fresh s + length (filter (fits n) (s_impossibleWaiters s)))
        (filter (\<lambda>x. \<not> fits n x) (s_waiters s))). n <s w_n (snd x)"
    by (rule all_fit_renumber) (simp add: not_fits)
  have c: "\<forall>x \<in> set (filter (fits n) (s_waiters s)). w_n (snd x) \<le>s n"
    by (simp add: fits_def)
  have d: "\<forall>x \<in> set (filter (\<lambda>x. \<not> fits n x) (s_impossibleWaiters s)). n <s w_n (snd x)"
    by (simp add: not_fits)
  have w: "\<forall>x \<in> set (s_waiters (reclassified n s)). w_n (snd x) \<le>s n"
    unfolding reclassified_lists(1) [OF assms] set_append using a c by blast
  have i: "\<forall>x \<in> set (s_impossibleWaiters (reclassified n s)). n <s w_n (snd x)"
    unfolding reclassified_lists(2) [OF assms] set_append using b d by blast
  from w i show ?thesis by (simp add: classified_def reclassified_frame)
qed

lemma classified_Resize:
  "heap_ok s \<Longrightarrow> \<not> n <s 0 \<Longrightarrow> classified (snd (Resize n s))"
  by (simp add: Resize_reclassified classified_wake_cascade classified_reclassified)

lemma classified_TryAcquire: "classified s \<Longrightarrow> classified (snd (TryAcquire n s))"
  by (simp add: TryAcquire_def Let_def)

lemma classified_Acquire_lock: "classified s \<Longrightarrow> classified (snd (Acquire_lock n s))"
  by (auto simp: Acquire_lock_def Let_def push_waiter_def list_PushBack_def classified_def
      signed.not_less)

lemma classified_Acquire_ctx_done: "classified s \<Longrightarrow> classified (snd (Acquire_ctx_done p s))"
  by (cases "waiterList p")
    (auto simp: Acquire_ctx_done_def remove_waiter_def list_Remove_filter classified_def)

subsection \<open>Programs of calls\<close>

lemma exec_invariants:
  assumes "exec ev (s, ps) = Some (s', ps')" "heap_ok s" "classified s"
  shows "heap_ok s' \<and> classified s'"
proof (cases ev)
  case (AcquireCall n)
  with assms heap_ok_Acquire_lock [of s n] classified_Acquire_lock [of s n] show ?thesis
    by (auto split: prod.splits entered.splits)
next
  case (CtxDone i)
  with assms heap_ok_Acquire_ctx_done [of s "ps ! i"] classified_Acquire_ctx_done [of s "ps ! i"]
  show ?thesis by (auto split: if_splits)
next
  case (ReadyRecv i)
  with assms show ?thesis by (auto split: if_splits)
next
  case (TryAcquireCall n)
  with assms heap_ok_TryAcquire [of s n] classified_TryAcquire [of s n] show ?thesis by auto
next
  case (ReleaseCall n)
  with assms heap_ok_Release [of s n] classified_Release [of s n] show ?thesis
    by (auto split: prod.splits outcome.splits)
next
  case (ResizeCall n)
  show ?thesis
  proof (cases "n <s 0")
    case True
    with assms ResizeCall show ?thesis by (simp add: Resize_def Let_def)
  next
    case False
    with assms ResizeCall heap_ok_Resize(1) [of s n] classified_Resize [of s n] show ?thesis
      by (auto split: prod.splits outcome.splits)
  qed
qed

lemma run_invariants:
  "run evs \<sigma> = Some \<sigma>' \<Longrightarrow> heap_ok (fst \<sigma>) \<Longrightarrow> classified (fst \<sigma>) \<Longrightarrow>
   heap_ok (fst \<sigma>') \<and> classified (fst \<sigma>')"
proof (induction evs arbitrary: \<sigma>)
  case Nil
  then show ?case by simp
next
  case (Cons ev evs)
  from Cons.prems(1) obtain \<sigma>1 where e: "exec ev \<sigma> = Some \<sigma>1" and r: "run evs \<sigma>1 = Some \<sigma>'"
    by (auto split: option.splits)
  from e Cons.prems(2,3) have "heap_ok (fst \<sigma>1) \<and> classified (fst \<sigma>1)"
    using exec_invariants [of ev "fst \<sigma>" "snd \<sigma>" "fst \<sigma>1" "snd \<sigma>1"] by simp
  with Cons.IH [OF r] show ?case by simp
qed

lemma reachable_heap_ok:
  "run evs (NewWeighted c, []) = Some (s, ps) \<Longrightarrow> heap_ok s"
  using run_invariants [of evs "(NewWeighted c, [])" "(s, ps)"]
  by (simp add: heap_ok_NewWeighted classified_NewWeighted)

subsection \<open>Resize and \<open>cur\<close>\<close>

lemma reclassified_weights_nonneg:
  assumes "heap_ok s" "weights_nonneg s"
  shows "\<forall>x \<in> set (s_waiters (reclassified n s)). 0 \<le>s w_n (snd x)"
proof -
  from assms(2) have a: "\<forall>x \<in> set (filter (fits n) (s_waiters s)). 0 \<le>s w_n (snd x)"
    and "\<forall>x \<in> set (filter (fits n) (s_impossibleWaiters s)). 0 \<le>s w_n (snd x)"
    by (simp_all add: weights_nonneg_def queued_def)
  then have "\<forall>x \<in> set (renumber (fresh s) (filter (fits n) (s_impossibleWaiters s))).
      0 \<le>s w_n (snd x)"
    by (intro all_fit_renumber)
  with a show ?thesis
    unfolding reclassified_lists(1) [OF assms(1)] set_append by blast
qed

text \<open>
  Claim C8 says that \<open>Resize\<close> never decreases \<open>cur\<close>. \<open>Acquire\<close> accepts a negative
  weight, and the cascade adds the weight of every waiter it grants: after
  \<open>NewWeighted(2)\<close>, \<open>TryAcquire(2)\<close>, \<open>Acquire(ctx, 1)\<close> and \<open>Acquire(ctx, -3)\<close>,
  both suspended, \<open>Resize(3)\<close> grants the two waiters and brings \<open>cur\<close> from 2 to 0.
\<close>

theorem C8_negative_weight_counterexample:
  "run [TryAcquireCall 2, AcquireCall 1, AcquireCall (- 3)] (NewWeighted 2, []) =
     Some (negative_waiter,
           [\<lparr>waiterList = Waiters, elem = 1, ready = 0\<rparr>,
            \<lparr>waiterList = Waiters, elem = 3, ready = 2\<rparr>]) \<and>
   heap_ok negative_waiter \<and>
   s_cur negative_waiter = 2 \<and>
   Resize 3 negative_waiter =
     (Returned, \<lparr>s_size = 3, s_cur = 0, s_waiters = [], s_impossibleWaiters = [],
                 closed = [0, 2], fresh = 4\<rparr>) \<and>
   \<not> (2 :: int64) \<le>s 0"
proof -
  have t: "TryAcquire 2 (NewWeighted 2) = (True, (NewWeighted 2)\<lparr>s_cur := 2\<rparr>)"
    by (simp add: TryAcquire_def NewWeighted_def list_Len_def word_sle_eq)
  have a1: "Acquire_lock 1 ((NewWeighted 2)\<lparr>s_cur := 2\<rparr>) =
      (Blocked \<lparr>waiterList = Waiters, elem = 1, ready = 0\<rparr>,
       \<lparr>s_size = 2, s_cur = 2, s_waiters = [(1, \<lparr>w_n = 1, w_ready = 0\<rparr>)],
        s_impossibleWaiters = [], closed = [], fresh = 2\<rparr>)"
    by (simp add: Acquire_lock_def NewWeighted_def Let_def push_waiter_def list_PushBack_def
        list_Len_def word_sle_eq word_sless_alt)
  have a2: "Acquire_lock (- 3)
       \<lparr>s_size = 2, s_cur = 2, s_waiters = [(Suc 0, \<lparr>w_n = 1, w_ready = 0\<rparr>)],
        s_impossibleWaiters = [], closed = [], fresh = 2\<rparr> =
      (Blocked \<lparr>waiterList = Waiters, elem = 3, ready = 2\<rparr>, negative_waiter)"
    by (simp add: Acquire_lock_def negative_waiter_def Let_def push_waiter_def list_PushBack_def
        list_Len_def word_sle_eq word_sless_alt)
  have r: "run [TryAcquireCall 2, AcquireCall 1, AcquireCall (- 3)] (NewWeighted 2, []) =
     Some (negative_waiter,
           [\<lparr>waiterList = Waiters, elem = 1, ready = 0\<rparr>,
            \<lparr>waiterList = Waiters, elem = 3, ready = 2\<rparr>])"
    by (simp add: t a1 a2)
  have ok: "heap_ok negative_waiter"
    by (simp add: heap_ok_def queued_def negative_waiter_def)
  have c: "s_cur negative_waiter = 2" by (simp add: negative_waiter_def)
  have rc: "reclassified 3 negative_waiter = negative_waiter\<lparr>s_size := 3\<rparr>"
    by (simp add: reclassified_def negative_waiter_def Let_def word_sle_eq)
  have z: "Resize 3 negative_waiter =
     (Returned, \<lparr>s_size = 3, s_cur = 0, s_waiters = [], s_impossibleWaiters = [],
                 closed = [0, 2], fresh = 4\<rparr>)"
    by (simp add: Resize_reclassified rc word_sless_alt)
      (simp add: negative_waiter_def wake_cascade_Cons wake_cascade_Nil list_Remove_filter
        word_sless_alt)
  have n: "\<not> (2 :: int64) \<le>s 0" by (simp add: word_sle_eq)
  from r ok c z n show ?thesis by blast
qed

text \<open>
  Claim C8, amended. The two reclassification loops of \<open>Resize\<close> leave \<open>cur\<close> alone,
  and so does the call that panics; the only writes to \<open>cur\<close> are the additions of
  the wake cascade, one for each waiter of the prefix it grants. When no queued waiter
  has a negative weight, the value of \<open>cur\<close> after \<open>Resize\<close> is therefore at least
  the value before, whether the capacity grows or shrinks.
\<close>

theorem C8_Resize_keeps_cur:
  "s_cur (reclassified n s) = s_cur s \<and>
   (n <s 0 \<longrightarrow> s_cur (snd (Resize n s)) = s_cur s) \<and>
   (\<not> n <s 0 \<longrightarrow> Resize n s = wake_cascade (reclassified n s)) \<and>
   (heap_ok s \<and> \<not> n <s 0 \<longrightarrow>
      (\<exists>k \<le> length (s_waiters (reclassified n s)).
         s_cur (snd (Resize n s)) =
           s_cur s + sum_list (weights (take k (s_waiters (reclassified n s)))))) \<and>
   (heap_ok s \<and> weights_nonneg s \<longrightarrow> s_cur s \<le>s s_cur (snd (Resize n s)))"
proof -
  have a: "s_cur (reclassified n s) = s_cur s" by (simp add: reclassified_frame)
  have b: "n <s 0 \<longrightarrow> s_cur (snd (Resize n s)) = s_cur s"
    by (simp add: Resize_def Let_def)
  have c: "\<not> n <s 0 \<longrightarrow> Resize n s = wake_cascade (reclassified n s)"
    by (simp add: Resize_reclassified)
  have d: "heap_ok s \<and> \<not> n <s 0 \<longrightarrow>
      (\<exists>k \<le> length (s_waiters (reclassified n s)).
         s_cur (snd (Resize n s)) =
           s_cur s + sum_list (weights (take k (s_waiters (reclassified n s)))))"
  proof (intro impI, elim conjE)
    assume ok: "heap_ok s" and n: "\<not> n <s 0"
    from wake_cascade_prefix [OF heap_ok_reclassified [OF ok, of n] refl]
    obtain k where "k \<le> length (s_waiters (reclassified n s))"
      "wake_cascade (reclassified n s) =
        (Returned, (reclassified n s)
           \<lparr>s_cur := s_cur (reclassified n s) +
                      sum_list (weights (take k (s_waiters (reclassified n s)))),
            s_waiters := drop k (s_waiters (reclassified n s)),
            closed := closed (reclassified n s) @
                      readys (take k (s_waiters (reclassified n s)))\<rparr>)"
      by blast
    with n a show "\<exists>k \<le> length (s_waiters (reclassified n s)).
         s_cur (snd (Resize n s)) =
           s_cur s + sum_list (weights (take k (s_waiters (reclassified n s))))"
      by (intro exI [of _ k]) (simp add: Resize_reclassified)
  qed
  have e: "heap_ok s \<and> weights_nonneg s \<longrightarrow> s_cur s \<le>s s_cur (snd (Resize n s))"
  proof (intro impI, elim conjE)
    assume ok: "heap_ok s" and nn: "weights_nonneg s"
    show "s_cur s \<le>s s_cur (snd (Resize n s))"
    proof (cases "n <s 0")
      case True
      with b show ?thesis by simp
    next
      case False
      then have "0 \<le>s s_size (reclassified n s)"
        by (simp add: reclassified_frame signed.not_less)
      then have "s_cur (reclassified n s) \<le>s s_cur (snd (wake_cascade (reclassified n s)))"
        using reclassified_weights_nonneg [OF ok nn] by (rule wake_cascade_cur_mono)
      with False a show ?thesis by (simp add: Resize_reclassified)
    qed
  qed
  from a b c d e show ?thesis by blast
qed

theorem C8_Resize_keeps_cur_witness:
  "heap_ok ((NewWeighted 2)\<lparr>s_cur := 2\<rparr>) \<and> weights_nonneg ((NewWeighted 2)\<lparr>s_cur := 2\<rparr>) \<and>
   Resize 1 ((NewWeighted 2)\<lparr>s_cur := 2\<rparr>) = (Returned, (NewWeighted 1)\<lparr>s_cur := 2\<rparr>) \<and>
   (2 :: int64) \<le>s s_cur (snd (Resize 1 ((NewWeighted 2)\<lparr>s_cur := 2\<rparr>))) \<and>
   heap_ok set_aside \<and> weights_nonneg set_aside \<and>
   s_cur set_aside \<le>s s_cur (snd (Resize 10 set_aside))"
proof -
  have h: "heap_ok ((NewWeighted 2)\<lparr>s_cur := 2\<rparr>)" "weights_nonneg ((NewWeighted 2)\<lparr>s_cur := 2\<rparr>)"
    by (simp_all add: heap_ok_def weights_nonneg_def queued_def NewWeighted_def)
  have g: "heap_ok set_aside" "weights_nonneg set_aside"
    by (simp_all add: heap_ok_def weights_nonneg_def queued_def set_aside_def word_sle_eq)
  have r: "reclassified 1 ((NewWeighted 2)\<lparr>s_cur := 2\<rparr>) = (NewWeighted 1)\<lparr>s_cur := 2\<rparr>"
    by (simp add: reclassified_def NewWeighted_def)
  have n: "\<not> (1 :: int64) <s 0" by (simp add: word_sless_alt)
  from C8_Resize_keeps_cur [of 1 "(NewWeighted 2)\<lparr>s_cur := 2\<rparr>"] n
  have "Resize 1 ((NewWeighted 2)\<lparr>s_cur := 2\<rparr>) = wake_cascade ((NewWeighted 1)\<lparr>s_cur := 2\<rparr>)"
    by (simp add: r)
  then have x: "Resize 1 ((NewWeighted 2)\<lparr>s_cur := 2\<rparr>) = (Returned, (NewWeighted 1)\<lparr>s_cur := 2\<rparr>)"
    by (simp add: wake_cascade_Nil NewWeighted_def)
  from C8_Resize_keeps_cur [of 1 "(NewWeighted 2)\<lparr>s_cur := 2\<rparr>"] h
  have y: "(2 :: int64) \<le>s s_cur (snd (Resize 1 ((NewWeighted 2)\<lparr>s_cur := 2\<rparr>)))"
    by (simp add: NewWeighted_def)
  from C8_Resize_keeps_cur [of 10 set_aside] g
  have z: "s_cur set_aside \<le>s s_cur (snd (Resize 10 set_aside))" by blast
  from h g x y z show ?thesis by blast
qed

subsection \<open>Classification\<close>







subsection \<open>The bounds on \<open>cur\<close>\<close>

lemma weights_nonneg_subset:
  "weights_nonneg s \<Longrightarrow> set (queued s') \<subseteq> set (queued s) \<Longrightarrow> weights_nonneg s'"
  unfolding weights_nonneg_def by blast

lemma nonneg_state_grant:
  assumes s: "nonneg_state s" and l: "s_waiters s = (e, w) # rest"
    and fit: "\<not> s_size s - s_cur s <s w_n w"
  shows "nonneg_state (s\<lparr>s_cur := s_cur s + w_n w, s_waiters := list_Remove ((e, w) # rest) e,
                          closed := cl\<rparr>)"
    and "s_cur s + w_n w \<le>s s_size s"
proof -
  from s have nn: "weights_nonneg s" and z: "0 \<le>s s_size s" "0 \<le>s s_cur s"
    by (simp_all add: nonneg_state_def)
  have "(e, w) \<in> set (queued s)" by (simp add: queued_def l)
  with nn have "0 \<le>s w_n (snd (e, w))" unfolding weights_nonneg_def by (rule bspec)
  then have w: "0 \<le>s w_n w" by simp
  from grant_exact(2) [OF z w fit] show "s_cur s + w_n w \<le>s s_size s" .
  let ?s' = "s\<lparr>s_cur := s_cur s + w_n w, s_waiters := list_Remove ((e, w) # rest) e,
                 closed := cl\<rparr>"
  have q: "queued ?s' = list_Remove ((e, w) # rest) e @ s_impossibleWaiters s"
    by (simp add: queued_def)
  have q0: "queued s = ((e, w) # rest) @ s_impossibleWaiters s"
    by (simp add: queued_def l)
  have "set (queued ?s') \<subseteq> set (queued s)"
    unfolding q q0 set_append using set_list_Remove [of "(e, w) # rest" e] by blast
  with nn have n': "weights_nonneg ?s'" by (rule weights_nonneg_subset)
  have c: "0 \<le>s s_cur s + w_n w" by (rule grant_exact(3) [OF z w fit])
  have "s_size ?s' = s_size s" "s_cur ?s' = s_cur s + w_n w" by simp_all
  with z(1) c n' show "nonneg_state ?s'" unfolding nonneg_state_def by presburger
qed

lemma nonneg_state_closed [simp]: "nonneg_state (s\<lparr>closed := cl\<rparr>) = nonneg_state s"
  by (simp add: nonneg_state_def weights_nonneg_def queued_def)

lemma wake_cascade_bounds:
  "nonneg_state s \<Longrightarrow>
   nonneg_state (snd (wake_cascade s)) \<and>
   (s_cur s \<le>s s_size s \<longrightarrow> s_cur (snd (wake_cascade s)) \<le>s s_size (snd (wake_cascade s)))"
proof (induction s rule: wake_cascade_induct2)
  case (Empty s)
  from Empty(1) have "wake_cascade s = (Returned, s)" by (rule wake_cascade_Nil)
  with Empty(2) show ?case by simp
next
  case (Stop s e w rest)
  from Stop(2) have "wake_cascade s = (Returned, s)"
    by (simp add: wake_cascade_Cons [OF Stop(1)])
  with Stop(3) show ?case by simp
next
  case (Panic s e w rest)
  let ?s' = "s\<lparr>s_cur := s_cur s + w_n w, s_waiters := list_Remove ((e, w) # rest) e\<rparr>"
  from Panic(2,3) have c: "wake_cascade s = (Panicked CloseOfClosedChannel, ?s')"
    by (simp add: wake_cascade_Cons [OF Panic(1)])
  have "nonneg_state (?s'\<lparr>closed := closed s\<rparr>)"
    using nonneg_state_grant(1) [OF Panic(4) Panic(1,2), where cl = "closed s"] by simp
  then have a: "nonneg_state ?s'" by (simp only: nonneg_state_closed)
  have b: "s_cur ?s' \<le>s s_size ?s'"
    using nonneg_state_grant(2) [OF Panic(4) Panic(1,2)] by simp
  from a b show ?case unfolding c by simp
next
  case (Grant s e w rest)
  let ?s' = "s\<lparr>s_cur := s_cur s + w_n w, s_waiters := list_Remove ((e, w) # rest) e,
                 closed := closed s @ [w_ready w]\<rparr>"
  from Grant(2,3) have c: "wake_cascade s = wake_cascade ?s'"
    by (simp add: wake_cascade_Cons [OF Grant(1)])
  have a: "nonneg_state ?s'"
    by (rule nonneg_state_grant(1) [OF Grant(5) Grant(1,2)])
  have b: "s_cur ?s' \<le>s s_size ?s'"
    using nonneg_state_grant(2) [OF Grant(5) Grant(1,2)] by simp
  from Grant(4) [OF a] b
  have "nonneg_state (snd (wake_cascade ?s')) \<and>
      s_cur (snd (wake_cascade ?s')) \<le>s s_size (snd (wake_cascade ?s'))"
    by blast
  then show ?case unfolding c by blast
qed

lemma TryAcquire_bounds:
  assumes "nonneg_state s" "0 \<le>s n"
  shows "nonneg_state (snd (TryAcquire n s))"
    and "s_cur s \<le>s s_size s \<Longrightarrow> s_cur (snd (TryAcquire n s)) \<le>s s_size (snd (TryAcquire n s))"
proof -
  from assms have z: "0 \<le>s s_size s" "0 \<le>s s_cur s" by (simp_all add: nonneg_state_def)
  have g: "n \<le>s s_size s - s_cur s \<Longrightarrow> 0 \<le>s s_cur s + n \<and> s_cur s + n \<le>s s_size s"
    using grant_exact(2,3) [OF z assms(2)] by (simp add: signed.not_less)
  from assms(1) g show "nonneg_state (snd (TryAcquire n s))"
    by (auto simp: TryAcquire_def Let_def nonneg_state_def weights_nonneg_def queued_def)
  from g show "s_cur s \<le>s s_size s \<Longrightarrow> s_cur (snd (TryAcquire n s)) \<le>s s_size (snd (TryAcquire n s))"
    by (auto simp: TryAcquire_def Let_def)
qed

lemma Acquire_lock_bounds:
  assumes "nonneg_state s" "0 \<le>s n"
  shows "nonneg_state (snd (Acquire_lock n s))"
    and "s_cur s \<le>s s_size s \<Longrightarrow>
         s_cur (snd (Acquire_lock n s)) \<le>s s_size (snd (Acquire_lock n s))"
proof -
  from assms have z: "0 \<le>s s_size s" "0 \<le>s s_cur s" by (simp_all add: nonneg_state_def)
  have g: "n \<le>s s_size s - s_cur s \<Longrightarrow> 0 \<le>s s_cur s + n \<and> s_cur s + n \<le>s s_size s"
    using grant_exact(2,3) [OF z assms(2)] by (simp add: signed.not_less)
  from assms g show "nonneg_state (snd (Acquire_lock n s))"
    by (auto simp: Acquire_lock_def Let_def nonneg_state_def weights_nonneg_def queued_def
        push_waiter_def list_PushBack_def)
  from g show "s_cur s \<le>s s_size s \<Longrightarrow>
         s_cur (snd (Acquire_lock n s)) \<le>s s_size (snd (Acquire_lock n s))"
    by (auto simp: Acquire_lock_def Let_def push_waiter_def)
qed

lemma Acquire_ctx_done_bounds:
  assumes "nonneg_state s"
  shows "nonneg_state (snd (Acquire_ctx_done p s))"
    and "s_cur (snd (Acquire_ctx_done p s)) = s_cur s"
    and "s_size (snd (Acquire_ctx_done p s)) = s_size s"
proof -
  have "set (queued (snd (Acquire_ctx_done p s))) \<subseteq> set (queued s)"
    by (cases "waiterList p")
      (auto simp: Acquire_ctx_done_def remove_waiter_def list_Remove_filter queued_def)
  moreover from assms have "weights_nonneg s" by (simp add: nonneg_state_def)
  ultimately have "weights_nonneg (snd (Acquire_ctx_done p s))"
    by (rule weights_nonneg_subset [rotated])
  moreover show c: "s_cur (snd (Acquire_ctx_done p s)) = s_cur s"
    and z: "s_size (snd (Acquire_ctx_done p s)) = s_size s"
    by (cases "waiterList p"; simp add: Acquire_ctx_done_def remove_waiter_def)+
  ultimately show "nonneg_state (snd (Acquire_ctx_done p s))"
    using assms by (simp add: nonneg_state_def)
qed

lemma Release_bounds:
  assumes s: "nonneg_state s" and n: "0 \<le>s n" and r: "fst (Release n s) = Returned"
  shows "nonneg_state (snd (Release n s))"
    and "s_cur s \<le>s s_size s \<Longrightarrow> s_cur (snd (Release n s)) \<le>s s_size (snd (Release n s))"
proof -
  let ?s1 = "s\<lparr>s_cur := s_cur s - n\<rparr>"
  from r have p: "\<not> s_cur s - n <s 0" by (auto simp: Release_def Let_def split: if_splits)
  then have e: "Release n s = wake_cascade ?s1" by (simp add: Release_def Let_def)
  from s have z: "0 \<le>s s_cur s" by (simp add: nonneg_state_def)
  from p s have s1: "nonneg_state ?s1"
    by (simp add: nonneg_state_def weights_nonneg_def queued_def signed.not_less)
  from wake_cascade_bounds [OF s1] e show "nonneg_state (snd (Release n s))" by simp
  have "sint (s_cur s - n) = sint (s_cur s) - sint n" using z n by (rule sint_sub_nonneg)
  with n have "s_cur s - n \<le>s s_cur s" by (simp add: word_sle_eq)
  then have "s_cur s \<le>s s_size s \<Longrightarrow> s_cur ?s1 \<le>s s_size ?s1" by simp
  with wake_cascade_bounds [OF s1] e
  show "s_cur s \<le>s s_size s \<Longrightarrow> s_cur (snd (Release n s)) \<le>s s_size (snd (Release n s))"
    by simp
qed

lemma Resize_bounds:
  assumes ok: "heap_ok s" and s: "nonneg_state s" and r: "fst (Resize n s) = Returned"
  shows "nonneg_state (snd (Resize n s))"
    and "s_cur s \<le>s n \<Longrightarrow> s_cur (snd (Resize n s)) \<le>s s_size (snd (Resize n s))"
proof -
  from r have p: "\<not> n <s 0" by (auto simp: Resize_def Let_def split: if_splits)
  then have e: "Resize n s = wake_cascade (reclassified n s)" by (rule Resize_reclassified)
  from s have nn: "weights_nonneg s" by (simp add: nonneg_state_def)
  from nn have a: "\<forall>x \<in> set (filter (\<lambda>x. \<not> fits n x) (s_impossibleWaiters s)). 0 \<le>s w_n (snd x)"
    and "\<forall>x \<in> set (filter (\<lambda>x. \<not> fits n x) (s_waiters s)). 0 \<le>s w_n (snd x)"
    by (simp_all add: weights_nonneg_def queued_def)
  then have "\<forall>x \<in> set (renumber (fresh s + length (filter (fits n) (s_impossibleWaiters s)))
      (filter (\<lambda>x. \<not> fits n x) (s_waiters s))). 0 \<le>s w_n (snd x)"
    by (intro all_fit_renumber)
  with a have i: "\<forall>x \<in> set (s_impossibleWaiters (reclassified n s)). 0 \<le>s w_n (snd x)"
    unfolding reclassified_lists(2) [OF ok] set_append by blast
  from reclassified_weights_nonneg [OF ok nn, of n] i
  have "weights_nonneg (reclassified n s)"
    unfolding weights_nonneg_def queued_def set_append by blast
  with p s have s1: "nonneg_state (reclassified n s)"
    by (simp add: nonneg_state_def reclassified_frame signed.not_less)
  from wake_cascade_bounds [OF s1] e show "nonneg_state (snd (Resize n s))" by simp
  from wake_cascade_bounds [OF s1] e
  show "s_cur s \<le>s n \<Longrightarrow> s_cur (snd (Resize n s)) \<le>s s_size (snd (Resize n s))"
    by (simp add: reclassified_frame)
qed

lemma exec_bounds:
  assumes x: "exec ev (s, ps) = Some (s', ps')" and ok: "heap_ok s" and s: "nonneg_state s"
    and c: "nonneg_call ev"
  shows "nonneg_state s' \<and> (keeps_room ev s \<longrightarrow> s_cur s \<le>s s_size s \<longrightarrow> s_cur s' \<le>s s_size s')"
proof (cases ev)
  case (AcquireCall n)
  with x have "s' = snd (Acquire_lock n s)" by (auto split: prod.splits entered.splits)
  with Acquire_lock_bounds [OF s, of n] c AcquireCall show ?thesis by simp
next
  case (CtxDone i)
  with x have "s' = snd (Acquire_ctx_done (ps ! i) s)" by (auto split: if_splits)
  with Acquire_ctx_done_bounds [OF s, of "ps ! i"] show ?thesis by simp
next
  case (ReadyRecv i)
  with x s show ?thesis by (auto split: if_splits)
next
  case (TryAcquireCall n)
  with x have "s' = snd (TryAcquire n s)" by simp
  with TryAcquire_bounds [OF s, of n] c TryAcquireCall show ?thesis by simp
next
  case (ReleaseCall n)
  with x have "s' = snd (Release n s)" "fst (Release n s) = Returned"
    by (auto split: prod.splits outcome.splits)
  with Release_bounds [OF s, of n] c ReleaseCall show ?thesis by simp
next
  case (ResizeCall n)
  with x have "s' = snd (Resize n s)" "fst (Resize n s) = Returned"
    by (auto split: prod.splits outcome.splits)
  with Resize_bounds [OF ok s, of n] ResizeCall show ?thesis by simp
qed

lemma run_bounds:
  "run evs \<sigma> = Some \<sigma>' \<Longrightarrow> heap_ok (fst \<sigma>) \<Longrightarrow> classified (fst \<sigma>) \<Longrightarrow>
   nonneg_state (fst \<sigma>) \<Longrightarrow> \<forall>ev \<in> set evs. nonneg_call ev \<Longrightarrow>
   nonneg_state (fst \<sigma>') \<and>
   (never_shrinks_below_cur evs \<sigma> \<longrightarrow> s_cur (fst \<sigma>) \<le>s s_size (fst \<sigma>) \<longrightarrow>
      s_cur (fst \<sigma>') \<le>s s_size (fst \<sigma>'))"
proof (induction evs arbitrary: \<sigma>)
  case Nil
  then show ?case by simp
next
  case (Cons ev evs)
  from Cons.prems(1) obtain \<sigma>1 where e: "exec ev \<sigma> = Some \<sigma>1" and r: "run evs \<sigma>1 = Some \<sigma>'"
    by (auto split: option.splits)
  from e have e': "exec ev (fst \<sigma>, snd \<sigma>) = Some (fst \<sigma>1, snd \<sigma>1)" by simp
  from exec_invariants [OF e' Cons.prems(2,3)]
  have i: "heap_ok (fst \<sigma>1)" "classified (fst \<sigma>1)" by blast+
  from Cons.prems(5) have c: "nonneg_call ev" "\<forall>ev \<in> set evs. nonneg_call ev" by simp_all
  from exec_bounds [OF e' Cons.prems(2,4) c(1)]
  have b: "nonneg_state (fst \<sigma>1)"
    and k: "keeps_room ev (fst \<sigma>) \<longrightarrow> s_cur (fst \<sigma>) \<le>s s_size (fst \<sigma>) \<longrightarrow>
       s_cur (fst \<sigma>1) \<le>s s_size (fst \<sigma>1)"
    by blast+
  from Cons.IH [OF r i b c(2)]
  have n: "nonneg_state (fst \<sigma>')"
    and m: "never_shrinks_below_cur evs \<sigma>1 \<longrightarrow> s_cur (fst \<sigma>1) \<le>s s_size (fst \<sigma>1) \<longrightarrow>
      s_cur (fst \<sigma>') \<le>s s_size (fst \<sigma>')"
    by blast+
  have "never_shrinks_below_cur (ev # evs) \<sigma> \<longrightarrow>
      keeps_room ev (fst \<sigma>) \<and> never_shrinks_below_cur evs \<sigma>1"
    using e by simp
  with n k m show ?case by blast
qed

lemma wake_cascade_no_overshoot:
  assumes "nonneg_state s"
  shows "s_cur (snd (wake_cascade s)) \<le>s s_size (snd (wake_cascade s)) \<or>
         s_cur (snd (wake_cascade s)) = s_cur s"
proof (cases "s_waiters s")
  case Nil
  then have "wake_cascade s = (Returned, s)" by (rule wake_cascade_Nil)
  then show ?thesis by simp
next
  case (Cons x rest)
  obtain e w where "x = (e, w)" by (cases x)
  with Cons have l: "s_waiters s = (e, w) # rest" by simp
  show ?thesis
  proof (cases "s_size s - s_cur s <s w_n w")
    case True
    then have "wake_cascade s = (Returned, s)" by (simp add: wake_cascade_Cons [OF l])
    then show ?thesis by simp
  next
    case fit: False
    note le = nonneg_state_grant(2) [OF assms l fit]
    show ?thesis
    proof (cases "w_ready w \<in> set (closed s)")
      case True
      let ?s' = "s\<lparr>s_cur := s_cur s + w_n w, s_waiters := list_Remove ((e, w) # rest) e\<rparr>"
      from fit True have c: "wake_cascade s = (Panicked CloseOfClosedChannel, ?s')"
        by (simp add: wake_cascade_Cons [OF l])
      from le have "s_cur ?s' \<le>s s_size ?s'" by simp
      then show ?thesis unfolding c by simp
    next
      case False
      let ?s' = "s\<lparr>s_cur := s_cur s + w_n w, s_waiters := list_Remove ((e, w) # rest) e,
                     closed := closed s @ [w_ready w]\<rparr>"
      from fit False have c: "wake_cascade s = wake_cascade ?s'"
        by (simp add: wake_cascade_Cons [OF l])
      have a: "nonneg_state ?s'" by (rule nonneg_state_grant(1) [OF assms l fit])
      from le have b: "s_cur ?s' \<le>s s_size ?s'" by simp
      from wake_cascade_bounds [OF a] b
      have "s_cur (snd (wake_cascade ?s')) \<le>s s_size (snd (wake_cascade ?s'))" by blast
      then show ?thesis unfolding c by blast
    qed
  qed
qed

lemma TryAcquire_no_overshoot:
  assumes "nonneg_state s" "0 \<le>s n"
  shows "s_cur (snd (TryAcquire n s)) \<le>s s_size (snd (TryAcquire n s)) \<or>
         s_cur (snd (TryAcquire n s)) = s_cur s"
proof -
  from assms have z: "0 \<le>s s_size s" "0 \<le>s s_cur s" by (simp_all add: nonneg_state_def)
  have g: "n \<le>s s_size s - s_cur s \<Longrightarrow> s_cur s + n \<le>s s_size s"
    using grant_exact(2) [OF z assms(2)] by (simp add: signed.not_less)
  show ?thesis
  proof (cases "n \<le>s s_size s - s_cur s \<and> list_Len (s_waiters s) = 0")
    case True
    with g show ?thesis by (simp add: TryAcquire_def Let_def)
  next
    case False
    then show ?thesis by (auto simp: TryAcquire_def Let_def)
  qed
qed

lemma Acquire_lock_no_overshoot:
  assumes "nonneg_state s" "0 \<le>s n"
  shows "s_cur (snd (Acquire_lock n s)) \<le>s s_size (snd (Acquire_lock n s)) \<or>
         s_cur (snd (Acquire_lock n s)) = s_cur s"
proof -
  from assms have z: "0 \<le>s s_size s" "0 \<le>s s_cur s" by (simp_all add: nonneg_state_def)
  have g: "n \<le>s s_size s - s_cur s \<Longrightarrow> s_cur s + n \<le>s s_size s"
    using grant_exact(2) [OF z assms(2)] by (simp add: signed.not_less)
  show ?thesis
  proof (cases "n \<le>s s_size s - s_cur s \<and> list_Len (s_waiters s) = 0")
    case True
    with g show ?thesis by (simp add: Acquire_lock_def Let_def)
  next
    case False
    have "s_cur (snd (Acquire_lock n s)) = s_cur s"
      using False by (cases "s_size s <s n"; auto simp: Acquire_lock_def Let_def push_waiter_def)
    then show ?thesis by simp
  qed
qed

lemma Release_no_overshoot:
  assumes s: "nonneg_state s" and n: "0 \<le>s n" and r: "fst (Release n s) = Returned"
  shows "s_cur (snd (Release n s)) \<le>s s_size (snd (Release n s)) \<or>
         s_cur (snd (Release n s)) \<le>s s_cur s"
proof -
  let ?s1 = "s\<lparr>s_cur := s_cur s - n\<rparr>"
  from r have p: "\<not> s_cur s - n <s 0" by (auto simp: Release_def Let_def split: if_splits)
  then have e: "Release n s = wake_cascade ?s1" by (simp add: Release_def Let_def)
  from s have z: "0 \<le>s s_cur s" by (simp add: nonneg_state_def)
  from p s have s1: "nonneg_state ?s1"
    by (simp add: nonneg_state_def weights_nonneg_def queued_def signed.not_less)
  have "sint (s_cur s - n) = sint (s_cur s) - sint n" using z n by (rule sint_sub_nonneg)
  with n have le: "s_cur ?s1 \<le>s s_cur s" by (simp add: word_sle_eq)
  from wake_cascade_no_overshoot [OF s1] le show ?thesis unfolding e by auto
qed

lemma Resize_no_overshoot:
  assumes ok: "heap_ok s" and s: "nonneg_state s" and r: "fst (Resize n s) = Returned"
  shows "s_cur (snd (Resize n s)) \<le>s s_size (snd (Resize n s)) \<or>
         s_cur (snd (Resize n s)) = s_cur s"
proof -
  from r have p: "\<not> n <s 0" by (auto simp: Resize_def Let_def split: if_splits)
  then have e: "Resize n s = wake_cascade (reclassified n s)" by (rule Resize_reclassified)
  from s have nn: "weights_nonneg s" by (simp add: nonneg_state_def)
  from nn have a: "\<forall>x \<in> set (filter (\<lambda>x. \<not> fits n x) (s_impossibleWaiters s)). 0 \<le>s w_n (snd x)"
    and "\<forall>x \<in> set (filter (\<lambda>x. \<not> fits n x) (s_waiters s)). 0 \<le>s w_n (snd x)"
    by (simp_all add: weights_nonneg_def queued_def)
  then have "\<forall>x \<in> set (renumber (fresh s + length (filter (fits n) (s_impossibleWaiters s)))
      (filter (\<lambda>x. \<not> fits n x) (s_waiters s))). 0 \<le>s w_n (snd x)"
    by (intro all_fit_renumber)
  with a have i: "\<forall>x \<in> set (s_impossibleWaiters (reclassified n s)). 0 \<le>s w_n (snd x)"
    unfolding reclassified_lists(2) [OF ok] set_append by blast
  from reclassified_weights_nonneg [OF ok nn, of n] i
  have "weights_nonneg (reclassified n s)"
    unfolding weights_nonneg_def queued_def set_append by blast
  with p s have s1: "nonneg_state (reclassified n s)"
    by (simp add: nonneg_state_def reclassified_frame signed.not_less)
  from wake_cascade_no_overshoot [OF s1] show ?thesis unfolding e
    by (simp add: reclassified_frame)
qed

lemma exec_no_overshoot:
  assumes x: "exec ev (s, ps) = Some (s', ps')" and ok: "heap_ok s" and s: "nonneg_state s"
    and c: "nonneg_call ev"
  shows "s_cur s' \<le>s s_size s' \<or> s_cur s' \<le>s s_cur s"
proof (cases ev)
  case (AcquireCall n)
  with x have "s' = snd (Acquire_lock n s)" by (auto split: prod.splits entered.splits)
  with Acquire_lock_no_overshoot [OF s, of n] c AcquireCall show ?thesis by auto
next
  case (CtxDone i)
  with x have "s' = snd (Acquire_ctx_done (ps ! i) s)" by (auto split: if_splits)
  with Acquire_ctx_done_bounds(2) [OF s, of "ps ! i"] show ?thesis by simp
next
  case (ReadyRecv i)
  with x show ?thesis by (auto split: if_splits)
next
  case (TryAcquireCall n)
  with x have "s' = snd (TryAcquire n s)" by simp
  with TryAcquire_no_overshoot [OF s, of n] c TryAcquireCall show ?thesis by auto
next
  case (ReleaseCall n)
  with x have "s' = snd (Release n s)" "fst (Release n s) = Returned"
    by (auto split: prod.splits outcome.splits)
  with Release_no_overshoot [OF s, of n] c ReleaseCall show ?thesis by simp
next
  case (ResizeCall n)
  with x have "s' = snd (Resize n s)" "fst (Resize n s) = Returned"
    by (auto split: prod.splits outcome.splits)
  with Resize_no_overshoot [OF ok s, of n] show ?thesis by auto
qed

text \<open>
  Claim C1 says that \<open>0 \<le> cur \<le> size\<close> in every reachable state. \<open>Resize\<close> does
  not touch \<open>cur\<close>, so shrinking below what is in use breaks the upper bound: after
  \<open>NewWeighted(2)\<close>, \<open>TryAcquire(2)\<close> and \<open>Resize(1)\<close>, \<open>cur\<close> is 2 and \<open>size\<close> is 1.
\<close>

theorem C1_shrink_counterexample:
  "run [TryAcquireCall 2, ResizeCall 1] (NewWeighted 2, []) =
     Some (\<lparr>s_size = 1, s_cur = 2, s_waiters = [], s_impossibleWaiters = [],
             closed = [], fresh = 0\<rparr>, []) \<and>
   \<not> (2 :: int64) \<le>s 1"
  by (simp add: TryAcquire_def NewWeighted_def list_Len_def Resize_def Let_def
      wake_cascade_Nil word_sle_eq word_sless_alt)

text \<open>
  Claim C1, amended. Take a program of calls from \<open>NewWeighted(c)\<close> with \<open>0 \<le> c\<close>,
  all weights being non-negative and no call having panicked. In every state it
  reaches, \<open>0 \<le> cur\<close> and \<open>0 \<le> size\<close>. The bound \<open>cur \<le> size\<close> holds in a reached
  state whenever it held in some earlier state of the run (the first one, for
  instance) and no \<open>Resize(n)\<close> since then was called with \<open>n\<close> below the value of
  \<open>cur\<close> at that moment: it is lost only by such a \<open>Resize\<close> and holds again as soon
  as enough has been released. And no step pushes \<open>cur\<close> over \<open>size\<close>: after every
  step either \<open>cur \<le> size\<close> or \<open>cur\<close> has not grown, and a step from a state with
  \<open>cur \<le> size\<close> keeps the bound unless it is a \<open>Resize\<close> below \<open>cur\<close>.
\<close>

theorem C1_bounds:
  "0 \<le>s c \<and> (\<forall>ev \<in> set (evs1 @ evs2). nonneg_call ev) \<and>
   run evs1 (NewWeighted c, []) = Some (s1, ps1) \<and> run evs2 (s1, ps1) = Some (s, ps) \<longrightarrow>
     0 \<le>s s_cur s \<and> 0 \<le>s s_size s \<and>
     (s_cur s1 \<le>s s_size s1 \<and> never_shrinks_below_cur evs2 (s1, ps1) \<longrightarrow>
        s_cur s \<le>s s_size s) \<and>
     (nonneg_call ev \<and> exec ev (s, ps) = Some (s', ps') \<longrightarrow>
        (s_cur s' \<le>s s_size s' \<or> s_cur s' \<le>s s_cur s) \<and>
        (s_cur s \<le>s s_size s \<and> keeps_room ev s \<longrightarrow> s_cur s' \<le>s s_size s'))"
proof (intro impI, elim conjE)
  assume c: "0 \<le>s c" and ev: "\<forall>ev \<in> set (evs1 @ evs2). nonneg_call ev"
    and r1: "run evs1 (NewWeighted c, []) = Some (s1, ps1)"
    and r2: "run evs2 (s1, ps1) = Some (s, ps)"
  from ev have e1: "\<forall>ev \<in> set evs1. nonneg_call ev" and e2: "\<forall>ev \<in> set evs2. nonneg_call ev"
    by simp_all
  from c have n0: "nonneg_state (fst (NewWeighted c, []))"
    by (simp add: nonneg_state_def weights_nonneg_def queued_def NewWeighted_def)
  have h0: "heap_ok (fst (NewWeighted c, []))" "classified (fst (NewWeighted c, []))"
    by (simp_all add: heap_ok_NewWeighted classified_NewWeighted)
  from run_invariants [OF r1 h0] have h1: "heap_ok (fst (s1, ps1))" "classified (fst (s1, ps1))"
    by simp_all
  from run_bounds [OF r1 h0 n0 e1] have n1: "nonneg_state (fst (s1, ps1))" by simp
  from run_invariants [OF r2 h1] have h: "heap_ok s" by simp
  from run_bounds [OF r2 h1 n1 e2]
  have n: "nonneg_state s"
    and k: "never_shrinks_below_cur evs2 (s1, ps1) \<longrightarrow> s_cur s1 \<le>s s_size s1 \<longrightarrow>
      s_cur s \<le>s s_size s"
    by simp_all
  have st: "nonneg_call ev \<and> exec ev (s, ps) = Some (s', ps') \<longrightarrow>
        (s_cur s' \<le>s s_size s' \<or> s_cur s' \<le>s s_cur s) \<and>
        (s_cur s \<le>s s_size s \<and> keeps_room ev s \<longrightarrow> s_cur s' \<le>s s_size s')"
  proof (intro impI, elim conjE)
    assume a: "nonneg_call ev" and x: "exec ev (s, ps) = Some (s', ps')"
    from exec_no_overshoot [OF x h n a] exec_bounds [OF x h n a]
    show "(s_cur s' \<le>s s_size s' \<or> s_cur s' \<le>s s_cur s) \<and>
        (s_cur s \<le>s s_size s \<and> keeps_room ev s \<longrightarrow> s_cur s' \<le>s s_size s')"
      by blast
  qed
  from n have "0 \<le>s s_cur s" "0 \<le>s s_size s" by (simp_all add: nonneg_state_def)
  with k st show "0 \<le>s s_cur s \<and> 0 \<le>s s_size s \<and>
     (s_cur s1 \<le>s s_size s1 \<and> never_shrinks_below_cur evs2 (s1, ps1) \<longrightarrow>
        s_cur s \<le>s s_size s) \<and>
     (nonneg_call ev \<and> exec ev (s, ps) = Some (s', ps') \<longrightarrow>
        (s_cur s' \<le>s s_size s' \<or> s_cur s' \<le>s s_cur s) \<and>
        (s_cur s \<le>s s_size s \<and> keeps_room ev s \<longrightarrow> s_cur s' \<le>s s_size s'))"
    by blast
qed

theorem C1_bounds_witness:
  "(0 :: int64) \<le>s 2 \<and>
   nonneg_call (TryAcquireCall 2) \<and> nonneg_call (ResizeCall 1) \<and> nonneg_call (ReleaseCall 2) \<and>
   nonneg_call (TryAcquireCall 1) \<and>
   run [TryAcquireCall 2, ResizeCall 1, ReleaseCall 2] (NewWeighted 2, []) =
     Some (NewWeighted 1, []) \<and>
   run [TryAcquireCall 1] (NewWeighted 1, []) = Some ((NewWeighted 1)\<lparr>s_cur := 1\<rparr>, []) \<and>
   s_cur (NewWeighted 1) \<le>s s_size (NewWeighted 1) \<and>
   never_shrinks_below_cur [TryAcquireCall 1] (NewWeighted 1, []) \<and>
   exec (ResizeCall 0) ((NewWeighted 1)\<lparr>s_cur := 1\<rparr>, []) =
     Some ((NewWeighted 0)\<lparr>s_cur := 1\<rparr>, []) \<and>
   (0 :: int64) \<le>s 1 \<and> (1 :: int64) \<le>s 1"
proof -
  have a: "(0 :: int64) \<le>s 2" by (simp add: word_sle_eq)
  have b: "nonneg_call (TryAcquireCall 2)" "nonneg_call (ResizeCall 1)"
    "nonneg_call (ReleaseCall 2)" "nonneg_call (TryAcquireCall 1)"
    by (simp_all add: word_sle_eq)
  have t: "TryAcquire 2 (NewWeighted 2) = (True, (NewWeighted 2)\<lparr>s_cur := 2\<rparr>)"
    by (simp add: TryAcquire_def NewWeighted_def list_Len_def word_sle_eq)
  have z: "Resize 1 ((NewWeighted 2)\<lparr>s_cur := 2\<rparr>) = (Returned, (NewWeighted 1)\<lparr>s_cur := 2\<rparr>)"
    by (simp add: Resize_def Let_def NewWeighted_def wake_cascade_Nil word_sless_alt)
  have l: "Release 2 ((NewWeighted 1)\<lparr>s_cur := 2\<rparr>) = (Returned, NewWeighted 1)"
    by (simp add: Release_def Let_def NewWeighted_def wake_cascade_Nil word_sless_alt)
  have u: "TryAcquire 1 (NewWeighted 1) = (True, (NewWeighted 1)\<lparr>s_cur := 1\<rparr>)"
    by (simp add: TryAcquire_def NewWeighted_def list_Len_def word_sle_eq)
  have v: "Resize 0 ((NewWeighted 1)\<lparr>s_cur := 1\<rparr>) = (Returned, (NewWeighted 0)\<lparr>s_cur := 1\<rparr>)"
    by (simp add: Resize_def Let_def NewWeighted_def wake_cascade_Nil word_sless_alt)
  have r1: "run [TryAcquireCall 2, ResizeCall 1, ReleaseCall 2] (NewWeighted 2, []) =
     Some (NewWeighted 1, [])"
    by (simp add: t z l)
  have r2: "run [TryAcquireCall 1] (NewWeighted 1, []) = Some ((NewWeighted 1)\<lparr>s_cur := 1\<rparr>, [])"
    by (simp add: u)
  have k1: "s_cur (NewWeighted 1) \<le>s s_size (NewWeighted 1)"
    by (simp add: NewWeighted_def word_sle_eq)
  have k2: "never_shrinks_below_cur [TryAcquireCall 1] (NewWeighted 1, [])"
    by (simp add: u)
  have x: "exec (ResizeCall 0) ((NewWeighted 1)\<lparr>s_cur := 1\<rparr>, []) =
     Some ((NewWeighted 0)\<lparr>s_cur := 1\<rparr>, [])"
    by (simp add: v)
  have ev: "\<forall>ev \<in> set ([TryAcquireCall 2, ResizeCall 1, ReleaseCall 2] @ [TryAcquireCall 1]).
      nonneg_call ev"
    using b by simp
  have nr: "nonneg_call (ResizeCall 0)" by simp
  from C1_bounds [of 2 "[TryAcquireCall 2, ResizeCall 1, ReleaseCall 2]" "[TryAcquireCall 1]"
      "NewWeighted 1" "[]" "(NewWeighted 1)\<lparr>s_cur := 1\<rparr>" "[]" "ResizeCall 0"
      "(NewWeighted 0)\<lparr>s_cur := 1\<rparr>" "[]"] a ev r1 r2 k1 k2 nr x
  have "(0 :: int64) \<le>s 1 \<and> (1 :: int64) \<le>s 1" by (simp add: NewWeighted_def)
  with a b r1 r2 k1 k2 x show ?thesis by simp
qed

subsection \<open>Cancellation after a Resize\<close>

text \<open>
  Claim C7 says that a waiter whose \<open>Acquire\<close> returned the cancellation error has been
  removed and is never granted afterwards, also when a \<open>Resize\<close> has moved it between
  the lists. \<open>Resize\<close> moves a waiter by pushing its value as a new element and
  removing the old one, while the suspended \<open>Acquire\<close> keeps the old element and the
  old list. After \<open>NewWeighted(1)\<close>, \<open>Acquire(ctx, 5)\<close>, \<open>TryAcquire(1)\<close> and
  \<open>Resize(5)\<close>, the cancellation of that \<open>Acquire\<close> returns \<open>ctx.Err()\<close> and removes
  nothing; the following \<open>Release(1)\<close> grants the canceled waiter: \<open>cur\<close> becomes 5 and
  its channel is closed.
\<close>

theorem C7_canceled_then_granted:
  "run [AcquireCall 5, TryAcquireCall 1, ResizeCall 5] (NewWeighted 1, []) = Some (moved, [stale]) \<and>
   Acquire_ctx_done stale moved = (Some (), moved) \<and>
   Release 1 moved =
     (Returned, \<lparr>s_size = 5, s_cur = 5, s_waiters = [], s_impossibleWaiters = [],
                 closed = [ready stale], fresh = 3\<rparr>) \<and>
   run [AcquireCall 5, TryAcquireCall 1, ResizeCall 5, CtxDone 0, ReleaseCall 1]
       (NewWeighted 1, []) =
     Some (\<lparr>s_size = 5, s_cur = 5, s_waiters = [], s_impossibleWaiters = [],
            closed = [ready stale], fresh = 3\<rparr>, [])"
proof -
  have a: "Acquire_lock 5 (NewWeighted 1) = (Blocked stale, set_aside)"
    by (simp add: Acquire_lock_def NewWeighted_def set_aside_def stale_def Let_def
        push_waiter_def list_PushBack_def list_Len_def word_sle_eq word_sless_alt)
  have t: "snd (TryAcquire 1 set_aside) = set_aside\<lparr>s_cur := 1\<rparr>"
    by (simp add: TryAcquire_def set_aside_def list_Len_def word_sle_eq)
  have r: "reclassified 5 (set_aside\<lparr>s_cur := 1\<rparr>) = moved"
    by (simp add: reclassified_def set_aside_def moved_def Let_def list_PushBack_def
        list_Remove_filter word_sless_alt)
  have z: "Resize 5 (set_aside\<lparr>s_cur := 1\<rparr>) = (Returned, moved)"
    by (simp add: Resize_reclassified r word_sless_alt)
      (simp add: moved_def wake_cascade_Cons word_sless_alt)
  have c: "Acquire_ctx_done stale moved = (Some (), moved)"
    by (simp add: Acquire_ctx_done_def stale_def moved_def remove_waiter_def list_Remove_def)
  have l: "Release 1 moved =
     (Returned, \<lparr>s_size = 5, s_cur = 5, s_waiters = [], s_impossibleWaiters = [],
                 closed = [ready stale], fresh = 3\<rparr>)"
    by (simp add: Release_def Let_def moved_def stale_def wake_cascade_Cons wake_cascade_Nil
        list_Remove_filter word_sless_alt)
  have x: "run [AcquireCall 5, TryAcquireCall 1, ResizeCall 5] (NewWeighted 1, []) =
      Some (moved, [stale])"
    by (simp add: a t z)
  have y: "run [AcquireCall 5, TryAcquireCall 1, ResizeCall 5, CtxDone 0, ReleaseCall 1]
       (NewWeighted 1, []) =
     Some (\<lparr>s_size = 5, s_cur = 5, s_waiters = [], s_impossibleWaiters = [],
            closed = [ready stale], fresh = 3\<rparr>, [])"
    by (simp add: a t z c l drop_nth_def)
  from x c l y show ?thesis by blast
qed

end
